theory Spec2Isabelle
  imports Main
begin

section \<open>Python values used by the nsecchain library\<close>

text \<open>
  The library under \<^verbatim>\<open>src/client/nsecchain\<close> works on Python \<^verbatim>\<open>bytes\<close> and on
  \<^verbatim>\<open>str\<close> values that hold DNS names and base32 text. Both are modelled as lists of
  8-bit characters: a byte is a \<^typ>\<open>char\<close>, a text is a \<^typ>\<open>string\<close>. Case folding
  touches the ASCII letters only, which is what \<^verbatim>\<open>str.lower\<close> and \<^verbatim>\<open>str.upper\<close> do on
  the ASCII texts DNS names are made of. Exceptions are values of the type \<open>error\<close>.
\<close>

type_synonym bytes = "char list"

datatype error = ValueError

subsection \<open>String methods\<close>

text \<open>\<^verbatim>\<open>s.rstrip(c)\<close> for a single character \<open>c\<close>: drop every trailing \<open>c\<close>.\<close>

definition rstrip :: "char \<Rightarrow> char list \<Rightarrow> char list" where
  "rstrip c s = rev (dropWhile (\<lambda>x. x = c) (rev s))"

definition lower_chr :: "char \<Rightarrow> char" where
  "lower_chr c =
     (if 65 \<le> (of_char c :: nat) \<and> (of_char c :: nat) \<le> 90
      then char_of (of_char c + (32 :: nat)) else c)"

definition upper_chr :: "char \<Rightarrow> char" where
  "upper_chr c =
     (if 97 \<le> (of_char c :: nat) \<and> (of_char c :: nat) \<le> 122
      then char_of (of_char c - (32 :: nat)) else c)"

text \<open>\<^verbatim>\<open>s.lower()\<close> and \<^verbatim>\<open>s.upper()\<close>.\<close>

definition str_lower :: "string \<Rightarrow> string" where
  "str_lower s = map lower_chr s"

definition str_upper :: "string \<Rightarrow> string" where
  "str_upper s = map upper_chr s"

text \<open>\<^verbatim>\<open>s.endswith(t)\<close> and \<^verbatim>\<open>s.startswith(t)\<close>.\<close>

definition endswith :: "string \<Rightarrow> string \<Rightarrow> bool" where
  "endswith s t = (length t \<le> length s \<and> drop (length s - length t) s = t)"

definition startswith :: "string \<Rightarrow> string \<Rightarrow> bool" where
  "startswith s t = (take (length t) s = t)"

text \<open>\<^verbatim>\<open>s.split(c)\<close> for a single character \<open>c\<close>: always at least one part.\<close>

fun split :: "char \<Rightarrow> string \<Rightarrow> string list" where
  "split c [] = [[]]"
| "split c (x # xs) =
     (if x = c then [] # split c xs
      else (case split c xs of [] \<Rightarrow> [[x]] | l # ls \<Rightarrow> (x # l) # ls))"

text \<open>\<^verbatim>\<open>c.join(parts)\<close>.\<close>

fun join :: "char \<Rightarrow> string list \<Rightarrow> string" where
  "join c [] = []"
| "join c [p] = p"
| "join c (p # q # ps) = p @ c # join c (q # ps)"

text \<open>
  The slices \<^verbatim>\<open>[s[i:i + k] for i in range(i0, len(s), k)]\<close>, the shape of every
  \<^verbatim>\<open>for i in range(0, len(s), k)\<close> loop of the library (for a positive step \<open>k\<close>).
\<close>

function range_slices :: "nat \<Rightarrow> nat \<Rightarrow> 'a list \<Rightarrow> 'a list list" where
  "range_slices i k s =
     (if i < length s \<and> 0 < k then take k (drop i s) # range_slices (i + k) k s else [])"
  by pat_completeness auto
termination
  by (relation "measure (\<lambda>(i, k, s). length s - i)") auto

declare range_slices.simps [simp del]

section \<open>Base32 of the Python standard library\<close>

text \<open>
  Modelled from the spec: \<^verbatim>\<open>base64.b32encode\<close> and \<^verbatim>\<open>base64.b32decode\<close> belong to the
  Python standard library, not to this repository, which only calls them; the
  specification names them as the RFC 4648 base32 encoding. The model follows the
  library's implementation (CPython 3.11, \<^verbatim>\<open>Lib/base64.py\<close>): the encoder pads the input
  with zero bytes to a multiple of five, turns each group of five bytes into a 40-bit
  number and that into eight characters, and overwrites the tail with \<^verbatim>\<open>=\<close>; the decoder
  strips and counts the pad characters, folds each group of up to eight characters into a
  number and that into five bytes, and repairs the last group from the pad count.
\<close>

definition b32alphabet :: string where
  "b32alphabet = ''ABCDEFGHIJKLMNOPQRSTUVWXYZ234567''"

text \<open>\<^verbatim>\<open>_b32tab2[alphabet][x]\<close>: the two characters of a 10-bit number.\<close>

definition b32tab2 :: "nat \<Rightarrow> string" where
  "b32tab2 x = [b32alphabet ! (x div 32), b32alphabet ! (x mod 32)]"

text \<open>\<^verbatim>\<open>_b32rev[alphabet]\<close>: the dictionary from a character to its 5-bit value.\<close>

definition b32rev :: "char \<Rightarrow> nat option" where
  "b32rev = map_of (zip b32alphabet [0..<32])"

text \<open>\<^verbatim>\<open>int.from_bytes(s)\<close>, big endian.\<close>

definition from_bytes :: "bytes \<Rightarrow> nat" where
  "from_bytes s = foldl (\<lambda>acc b. acc * 256 + of_char b) 0 s"

text \<open>
  \<^verbatim>\<open>acc.to_bytes(5)\<close>, big endian. Python raises \<^verbatim>\<open>OverflowError\<close> from \<open>2 ^ 40\<close> on; the
  decoder only passes numbers folded from at most eight 5-bit values, which are smaller.
\<close>

definition to_bytes5 :: "nat \<Rightarrow> bytes" where
  "to_bytes5 n =
     [char_of (n div 2 ^ 32), char_of (n div 2 ^ 24), char_of (n div 2 ^ 16),
      char_of (n div 2 ^ 8), char_of n]"

text \<open>The body of the encoder's loop, for one group of five bytes.\<close>

definition encode_quantum :: "bytes \<Rightarrow> string" where
  "encode_quantum q =
     (let c = from_bytes q
      in b32tab2 (c div 2 ^ 30) @ b32tab2 ((c div 2 ^ 20) mod 1024)
         @ b32tab2 ((c div 2 ^ 10) mod 1024) @ b32tab2 (c mod 1024))"

definition b32encode :: "bytes \<Rightarrow> string" where
  "b32encode s =
     (let leftover = length s mod 5;
          s' = (if leftover \<noteq> 0 then s @ replicate (5 - leftover) (CHR 0x00) else s);
          encoded = concat (map encode_quantum (range_slices 0 5 s'))
      in if leftover = 1 then take (length encoded - 6) encoded @ ''======''
         else if leftover = 2 then take (length encoded - 4) encoded @ ''====''
         else if leftover = 3 then take (length encoded - 3) encoded @ ''===''
         else if leftover = 4 then take (length encoded - 1) encoded @ ''=''
         else encoded)"

text \<open>
  The decoder's inner loop \<^verbatim>\<open>for c in quanta: acc = (acc << 5) + b32rev[c]\<close>;
  \<open>None\<close> is the \<^verbatim>\<open>KeyError\<close> of a character outside the alphabet.
\<close>

fun decode_quantum :: "string \<Rightarrow> nat \<Rightarrow> nat option" where
  "decode_quantum [] acc = Some acc"
| "decode_quantum (c # cs) acc =
     (case b32rev c of None \<Rightarrow> None | Some v \<Rightarrow> decode_quantum cs (acc * 32 + v))"

text \<open>The decoder's outer loop over the groups, with the state \<open>(decoded, acc)\<close>.\<close>

fun decode_loop :: "string list \<Rightarrow> bytes \<Rightarrow> nat \<Rightarrow> (bytes \<times> nat) option" where
  "decode_loop [] decoded acc = Some (decoded, acc)"
| "decode_loop (quanta # rest) decoded acc =
     (case decode_quantum quanta 0 of
        None \<Rightarrow> None
      | Some acc' \<Rightarrow> decode_loop rest (decoded @ to_bytes5 acc') acc')"

text \<open>\<^verbatim>\<open>base64.b32decode(s)\<close>; \<open>None\<close> is \<^verbatim>\<open>binascii.Error\<close>.\<close>

definition b32decode :: "string \<Rightarrow> bytes option" where
  "b32decode s =
     (if length s mod 8 \<noteq> 0 then None
      else (let l = length s;
                s' = rstrip CHR ''='' s;
                padchars = l - length s'
            in case decode_loop (range_slices 0 8 s') [] 0 of
                 None \<Rightarrow> None
               | Some (decoded, acc) \<Rightarrow>
                   if padchars \<notin> {0, 1, 3, 4, 6} then None
                   else if padchars \<noteq> 0 \<and> decoded \<noteq> []
                   then (let acc' = acc * 2 ^ (5 * padchars);
                             last = to_bytes5 acc';
                             leftover = (43 - 5 * padchars) div 8
                         in Some (take (length decoded - 5) decoded @ take leftover last))
                   else Some decoded))"

section \<open>encoder.py\<close>

definition encode_chunk :: "bytes \<Rightarrow> string" where
  "encode_chunk chunk = str_lower (rstrip CHR ''='' (b32encode chunk))"

text \<open>
  \<^verbatim>\<open>split_into_labels(encoded, max_label_len)\<close>: the empty text gives no label; a step
  of zero makes \<^verbatim>\<open>range\<close> raise \<^verbatim>\<open>ValueError\<close>.
\<close>

definition split_into_labels :: "string \<Rightarrow> nat \<Rightarrow> error + string list" where
  "split_into_labels encoded max_label_len =
     (if encoded = [] then Inr []
      else if max_label_len = 0 then Inl ValueError
      else Inr (range_slices 0 max_label_len encoded))"

definition filler :: char where
  "filler = CHR ''_''"

text \<open>The body of the loop of \<^verbatim>\<open>chunk_message\<close>: pad a short chunk with underscores.\<close>

definition pad_chunk :: "nat \<Rightarrow> bytes \<Rightarrow> bytes" where
  "pad_chunk chunk_size chunk =
     (if length chunk < chunk_size
      then chunk @ replicate (chunk_size - length chunk) filler else chunk)"

definition chunk_message :: "bytes \<Rightarrow> nat \<Rightarrow> error + bytes list" where
  "chunk_message message chunk_size =
     (if chunk_size = 0 then Inl ValueError
      else (let chunks = map (pad_chunk chunk_size) (range_slices 0 chunk_size message)
            in if chunks = [] then Inr [replicate chunk_size filler] else Inr chunks))"

section \<open>decoder.py\<close>

text \<open>
  \<^verbatim>\<open>decode_labels(labels)\<close>: every exception of the base32 decoder is raised again as
  \<^verbatim>\<open>ValueError\<close>.
\<close>

definition decode_labels :: "string \<Rightarrow> error + bytes" where
  "decode_labels labels =
     (let clean = filter (\<lambda>c. c \<noteq> CHR ''.'') labels;
          clean = str_upper clean;
          padding_needed = (8 - length clean mod 8) mod 8;
          clean = clean @ replicate padding_needed CHR ''=''
      in case b32decode clean of None \<Rightarrow> Inl ValueError | Some b \<Rightarrow> Inr b)"

text \<open>\<^verbatim>\<open>strip_padding(data)\<close> with the default padding character \<^verbatim>\<open>b'_'\<close>.\<close>

definition strip_padding :: "bytes \<Rightarrow> bytes" where
  "strip_padding data = rstrip filler data"

text \<open>
  The generator \<^verbatim>\<open>decode_labels(c) for c in encoded_chunks\<close> consumed by \<^verbatim>\<open>b''.join\<close>: the
  first chunk that fails to decode ends it with the error.
\<close>

fun decode_each :: "string list \<Rightarrow> error + bytes list" where
  "decode_each [] = Inr []"
| "decode_each (c # cs) =
     (case decode_labels c of
        Inl e \<Rightarrow> Inl e
      | Inr b \<Rightarrow> (case decode_each cs of Inl e \<Rightarrow> Inl e | Inr bs \<Rightarrow> Inr (b # bs)))"

definition decode_payload_chunks :: "string list \<Rightarrow> error + bytes" where
  "decode_payload_chunks encoded_chunks =
     (case decode_each encoded_chunks of
        Inl e \<Rightarrow> Inl e
      | Inr decoded \<Rightarrow> Inr (strip_padding (concat decoded)))"

section \<open>ordering.py\<close>

subsection \<open>Decimal numbers\<close>

definition digit_chr :: "nat \<Rightarrow> char" where
  "digit_chr d = char_of (48 + d)"

text \<open>\<^verbatim>\<open>str(n)\<close> for a natural number \<open>n\<close>.\<close>

fun dec_digits :: "nat \<Rightarrow> string" where
  "dec_digits n = (if n < 10 then [digit_chr n] else dec_digits (n div 10) @ [digit_chr (n mod 10)])"

declare dec_digits.simps [simp del]

text \<open>
  The format \<^verbatim>\<open>f"{index:04d}"\<close>: at least four characters, padded with zeros after
  the sign; an index of five or more digits is printed in full.
\<close>

definition fmt04d :: "int \<Rightarrow> string" where
  "fmt04d index =
     (if 0 \<le> index
      then (let ds = dec_digits (nat index) in replicate (4 - length ds) CHR ''0'' @ ds)
      else (let ds = dec_digits (nat (- index)) in CHR ''-'' # replicate (3 - length ds) CHR ''0'' @ ds))"

definition is_digit :: "char \<Rightarrow> bool" where
  "is_digit c = (48 \<le> (of_char c :: nat) \<and> (of_char c :: nat) \<le> 57)"

definition digit_val :: "char \<Rightarrow> nat" where
  "digit_val c = of_char c - 48"

text \<open>\<^verbatim>\<open>int(ds)\<close> for a text of decimal digits.\<close>

definition int_of_digits :: "string \<Rightarrow> int" where
  "int_of_digits ds = int (foldl (\<lambda>acc d. 10 * acc + digit_val d) 0 ds)"

text \<open>
  \<^verbatim>\<open>re.match(r'^n(\d+)$', s)\<close>, returning group 1: the letter \<open>n\<close>, then one or more
  digits up to the end of the text, where \<^verbatim>\<open>$\<close> also matches just before one final newline.
\<close>

definition match_index :: "string \<Rightarrow> string option" where
  "match_index s =
     (case s of
        [] \<Rightarrow> None
      | c # r \<Rightarrow>
          if c \<noteq> CHR ''n'' then None
          else (let ds = (if r \<noteq> [] \<and> last r = CHR 0x0A then butlast r else r)
                in if ds \<noteq> [] \<and> (\<forall>d \<in> set ds. is_digit d) then Some ds else None))"

subsection \<open>Names\<close>

definition node_name_for_index :: "int \<Rightarrow> string \<Rightarrow> string \<Rightarrow> bool \<Rightarrow> string" where
  "node_name_for_index index encoded_payload zone absolute =
     (let zone = rstrip CHR ''.'' zone;
          name = ''n'' @ fmt04d index @ ''.'' @ encoded_payload @ ''.'' @ zone
      in if absolute then name @ ''.'' else name)"

definition in_gap_name :: "int \<Rightarrow> string \<Rightarrow> string \<Rightarrow> bool \<Rightarrow> string" where
  "in_gap_name index zone suffix absolute =
     (let zone = rstrip CHR ''.'' zone;
          name = ''n'' @ fmt04d index @ suffix @ ''.'' @ zone
      in if absolute then name @ ''.'' else name)"

definition suffixes :: "string list" where
  "suffixes = [''m'', ''k'', ''j'', ''h'', ''g'', ''f'', ''e'', ''d'', ''c'', ''b'']"

definition verification_in_gap_name :: "int \<Rightarrow> string \<Rightarrow> int \<Rightarrow> string" where
  "verification_in_gap_name index zone variant =
     (let suffix = suffixes ! nat (variant mod int (length suffixes))
      in in_gap_name index zone suffix True)"

text \<open>The order \<^verbatim>\<open><\<close> of Python on texts: lexicographic on the character codes.\<close>

fun str_lt :: "string \<Rightarrow> string \<Rightarrow> bool" where
  "str_lt [] [] = False"
| "str_lt [] (y # ys) = True"
| "str_lt (x # xs) [] = False"
| "str_lt (x # xs) (y # ys) =
     ((of_char x :: nat) < of_char y \<or> (x = y \<and> str_lt xs ys))"

definition is_name_between :: "string \<Rightarrow> string \<Rightarrow> string \<Rightarrow> bool" where
  "is_name_between name lower upper =
     (let name = rstrip CHR ''.'' (str_lower name);
          lower = rstrip CHR ''.'' (str_lower lower);
          upper = rstrip CHR ''.'' (str_lower upper)
      in str_lt lower name \<and> str_lt name upper)"

definition parse_node_name :: "string \<Rightarrow> string \<Rightarrow> (int \<times> string) option" where
  "parse_node_name name zone =
     (let zone = rstrip CHR ''.'' zone;
          name = str_lower (rstrip CHR ''.'' name);
          zone_suffix = ''.'' @ str_lower zone
      in if \<not> endswith name zone_suffix then None
         else (let prefix = take (length name - length zone_suffix) name;
                   parts = split CHR ''.'' prefix
               in if length parts < 2 then None
                  else (case match_index (hd parts) of
                          None \<Rightarrow> None
                        | Some ds \<Rightarrow> Some (int_of_digits ds, join CHR ''.'' (tl parts)))))"

section \<open>parser.py\<close>

text \<open>
  \<^verbatim>\<open>extract_payload_from_next_name(next_name, zone)\<close>; the name is given by its text,
  the result of \<^verbatim>\<open>next_name.to_text()\<close>.
\<close>

definition extract_payload_from_next_name :: "string \<Rightarrow> string \<Rightarrow> string option" where
  "extract_payload_from_next_name next_name zone =
     (let name_str = str_lower next_name;
          zone = rstrip CHR ''.'' (str_lower zone)
      in if \<not> endswith (rstrip CHR ''.'' name_str) zone then None
         else (let prefix = rstrip CHR ''.'' name_str;
                   zone_suffix = ''.'' @ zone;
                   prefix = (if endswith prefix zone_suffix
                             then take (length prefix - length zone_suffix) prefix else prefix);
                   labels = split CHR ''.'' prefix
               in if labels = [] \<or> \<not> startswith (hd labels) ''n'' then None
                  else if length labels < 2 then None
                  else Some (join CHR ''.'' (tl labels))))"

section \<open>Notions of the statements and of the proofs\<close>

text \<open>
  The specification speaks of valid payload texts (non-empty, lower-case base32 characters
  in labels separated by single dots, no empty label) and of valid zones (non-empty,
  lower case, no trailing dot). These predicates only restrict the inputs of theorems.
\<close>

definition is_b32_lower :: "char \<Rightarrow> bool" where
  "is_b32_lower c =
     ((97 \<le> (of_char c :: nat) \<and> (of_char c :: nat) \<le> 122)
      \<or> (50 \<le> (of_char c :: nat) \<and> (of_char c :: nat) \<le> 55))"

definition valid_payload_text :: "string \<Rightarrow> bool" where
  "valid_payload_text p =
     (p \<noteq> [] \<and> (\<forall>c \<in> set p. is_b32_lower c \<or> c = CHR ''.'') \<and> [] \<notin> set (split CHR ''.'' p))"

definition valid_zone :: "string \<Rightarrow> bool" where
  "valid_zone zone = (zone \<noteq> [] \<and> str_lower zone = zone \<and> last zone \<noteq> CHR ''.'')"

text \<open>
  The eleven probe names of one index: the priming name with suffix \<open>z\<close> and the
  verification names of the variants 0 to 9.
\<close>

definition gap_names :: "int \<Rightarrow> string \<Rightarrow> string list" where
  "gap_names index zone =
     in_gap_name index zone ''z'' True
     # map (verification_in_gap_name index zone) [0, 1, 2, 3, 4, 5, 6, 7, 8, 9]"

text \<open>The number a text of digits stands for, as \<^verbatim>\<open>int\<close> computes it.\<close>

definition digits_val :: "string \<Rightarrow> nat" where
  "digits_val ds = foldl (\<lambda>acc d. 10 * acc + digit_val d) 0 ds"

text \<open>
  For the base32 proofs: the eight 5-bit values of a 40-bit number in the order the
  encoder emits them, the number a list of 5-bit values folds to, and the number of pad
  characters that goes with a number of leftover bytes.
\<close>

definition qdigits :: "nat \<Rightarrow> nat list" where
  "qdigits c =
     [c div 2 ^ 30 div 32, c div 2 ^ 30 mod 32,
      (c div 2 ^ 20) mod 1024 div 32, (c div 2 ^ 20) mod 1024 mod 32,
      (c div 2 ^ 10) mod 1024 div 32, (c div 2 ^ 10) mod 1024 mod 32,
      c mod 1024 div 32, c mod 1024 mod 32]"

definition val32 :: "nat list \<Rightarrow> nat" where
  "val32 ds = foldl (\<lambda>acc d. acc * 32 + d) 0 ds"

definition npad :: "nat \<Rightarrow> nat" where
  "npad r = (if r = 1 then 6 else if r = 2 then 4 else if r = 3 then 3 else if r = 4 then 1 else 0)"

section \<open>Slices of a list\<close>

lemma range_slices_shift: "range_slices (i + j) k s = range_slices i k (drop j s)"
proof (induction i k "drop j s" rule: range_slices.induct)
  case (1 i k)
  show ?case
  proof (cases "i < length (drop j s) \<and> 0 < k")
    case True
    then have a: "i + j < length s \<and> 0 < k" by auto
    have "range_slices (i + j) k s = take k (drop (i + j) s) # range_slices (i + j + k) k s"
      using a by (subst range_slices.simps) simp
    moreover have "range_slices i k (drop j s) = take k (drop i (drop j s)) # range_slices (i + k) k (drop j s)"
      using True by (subst range_slices.simps) simp
    moreover have "range_slices (i + k + j) k s = range_slices (i + k) k (drop j s)"
      using 1 True by simp
    ultimately show ?thesis by (simp add: add.commute add.left_commute)
  next
    case False
    then have "\<not> (i + j < length s \<and> 0 < k)" by auto
    with False show ?thesis
      by (subst range_slices.simps, subst (2) range_slices.simps) auto
  qed
qed

lemma range_slices_0:
  "range_slices 0 k s = (if s = [] \<or> k = 0 then [] else take k s # range_slices 0 k (drop k s))"
  using range_slices_shift [of 0 k k s]
  by (subst range_slices.simps) auto

lemma concat_range_slices: "0 < k \<Longrightarrow> concat (range_slices 0 k s) = s"
proof (induction "length s" arbitrary: s rule: less_induct)
  case less
  show ?case
  proof (cases "s = []")
    case True
    then show ?thesis by (simp add: range_slices_0)
  next
    case False
    then have "length (drop k s) < length s" using less.prems by simp
    then have "concat (range_slices 0 k (drop k s)) = drop k s"
      using less by blast
    then show ?thesis using False less.prems
      by (subst range_slices_0) simp
  qed
qed

lemma length_range_slices: "0 < k \<Longrightarrow> length (range_slices 0 k s) = (length s + k - 1) div k"
proof (induction "length s" arbitrary: s rule: less_induct)
  case less
  show ?case
  proof (cases "s = []")
    case True
    then show ?thesis using less.prems by (simp add: range_slices_0)
  next
    case False
    then have "length (drop k s) < length s" using less.prems by simp
    then have ih: "length (range_slices 0 k (drop k s)) = (length (drop k s) + k - 1) div k"
      using less by blast
    show ?thesis
    proof (cases "length s \<le> k")
      case True
      have "Suc 0 \<le> length s" using False by (cases s) simp_all
      then have "k \<le> length s + k - 1" and "length s + k - 1 < k + k"
        using True less.prems by linarith+
      then have "(length s + k - 1) div k = 1"
        by (intro div_nat_eqI) simp_all
      then show ?thesis using ih True False less.prems
        by (subst range_slices_0) simp
    next
      case b: False
      then have "length s + k - 1 = (length s - k + k - 1) + k" by simp
      then have "(length s + k - 1) div k = Suc ((length s - k + k - 1) div k)"
        using less.prems by (metis div_add_self2 less_numeral_extra(3) Suc_eq_plus1)
      then show ?thesis using ih False less.prems
        by (subst range_slices_0) simp
    qed
  qed
qed

lemma range_slices_bound: "x \<in> set (range_slices 0 k s) \<Longrightarrow> length x \<le> k"
proof (induction "length s" arbitrary: s rule: less_induct)
  case less
  show ?case
  proof (cases "s = [] \<or> k = 0")
    case True
    then show ?thesis using less.prems by (simp add: range_slices_0)
  next
    case False
    then have "length (drop k s) < length s" by simp
    then have "x \<in> set (range_slices 0 k (drop k s)) \<Longrightarrow> length x \<le> k"
      using less by blast
    moreover have "x = take k s \<or> x \<in> set (range_slices 0 k (drop k s))"
      using less.prems False by (subst (asm) range_slices_0) auto
    ultimately show ?thesis by auto
  qed
qed

lemma length_pad_chunk: "length chunk \<le> chunk_size \<Longrightarrow> length (pad_chunk chunk_size chunk) = chunk_size"
  by (simp add: pad_chunk_def)

section \<open>The label splitter and the message chunker\<close>

text \<open>
  Claim C8. For every text \<open>t\<close> and every positive \<open>max_len\<close>, \<^verbatim>\<open>split_into_labels\<close>
  returns segments whose concatenation is \<open>t\<close>; there are \<open>ceil(len(t)/max_len)\<close> of them
  (none for the empty text), and none is longer than \<open>max_len\<close>.
\<close>

theorem split_into_labels_inverse:
  assumes "0 < max_len"
  shows "\<exists>segs. split_into_labels t max_len = Inr segs
           \<and> concat segs = t
           \<and> length segs = (if t = [] then 0 else (length t + max_len - 1) div max_len)
           \<and> (\<forall>seg \<in> set segs. length seg \<le> max_len)"
proof (cases "t = []")
  case True
  then show ?thesis by (simp add: split_into_labels_def)
next
  case False
  then have "split_into_labels t max_len = Inr (range_slices 0 max_len t)"
    using assms by (simp add: split_into_labels_def)
  moreover have "concat (range_slices 0 max_len t) = t"
    using assms by (rule concat_range_slices)
  moreover have "length (range_slices 0 max_len t) = (length t + max_len - 1) div max_len"
    using assms by (rule length_range_slices)
  moreover have "\<forall>seg \<in> set (range_slices 0 max_len t). length seg \<le> max_len"
    by (blast intro: range_slices_bound)
  ultimately show ?thesis using False by simp
qed

theorem split_into_labels_inverse_witness:
  "0 < (4::nat) \<and> (\<exists>segs. split_into_labels ''abcdefghij'' 4 = Inr segs
           \<and> concat segs = ''abcdefghij''
           \<and> length segs = 3
           \<and> (\<forall>seg \<in> set segs. length seg \<le> 4))"
  using split_into_labels_inverse [of 4 "''abcdefghij''"] by simp

text \<open>
  Claim C4. For every message \<open>m\<close> and every positive \<open>chunk_size\<close>, \<^verbatim>\<open>chunk_message\<close>
  returns \<open>max(1, ceil(len(m)/chunk_size))\<close> chunks, each of exactly \<open>chunk_size\<close> bytes, and
  the empty message gives the single chunk made of filler bytes only.
\<close>

theorem chunk_message_count:
  assumes "0 < chunk_size"
  shows "\<exists>chunks. chunk_message m chunk_size = Inr chunks
           \<and> length chunks = max 1 ((length m + chunk_size - 1) div chunk_size)
           \<and> (\<forall>c \<in> set chunks. length c = chunk_size)
           \<and> (m = [] \<longrightarrow> chunks = [replicate chunk_size filler])"
proof (cases "m = []")
  case True
  then show ?thesis using assms
    by (simp add: chunk_message_def range_slices_0)
next
  case False
  let ?sl = "range_slices 0 chunk_size m"
  have ne: "?sl \<noteq> []"
    using False assms by (subst range_slices_0) simp
  then have eq: "chunk_message m chunk_size = Inr (map (pad_chunk chunk_size) ?sl)"
    using assms by (simp add: chunk_message_def)
  have len: "length ?sl = (length m + chunk_size - 1) div chunk_size"
    using assms by (rule length_range_slices)
  have "0 < length ?sl" using ne by simp
  then have "max 1 ((length m + chunk_size - 1) div chunk_size) = length ?sl"
    using len by simp
  moreover have "\<forall>c \<in> set (map (pad_chunk chunk_size) ?sl). length c = chunk_size"
    by (auto simp: length_pad_chunk dest: range_slices_bound)
  ultimately show ?thesis using eq False by simp
qed

theorem chunk_message_count_witness:
  "0 < (4::nat) \<and> (\<exists>chunks. chunk_message ''hello world'' 4 = Inr chunks
           \<and> length chunks = 3
           \<and> (\<forall>c \<in> set chunks. length c = 4))"
  using chunk_message_count [of 4 "''hello world''"] by simp

section \<open>Texts: stripping, case folding, splitting\<close>

lemma rstrip_snoc: "rstrip c (s @ [x]) = (if x = c then rstrip c s else s @ [x])"
  by (simp add: rstrip_def)

lemma rstrip_Nil: "rstrip c [] = []"
  by (simp add: rstrip_def)

lemma rstrip_fixed: "s = [] \<or> last s \<noteq> c \<Longrightarrow> rstrip c s = s"
  by (cases s rule: rev_cases) (auto simp: rstrip_snoc rstrip_Nil)

lemma rstrip_last: "rstrip c s = [] \<or> last (rstrip c s) \<noteq> c"
  by (induction s rule: rev_induct) (auto simp: rstrip_snoc rstrip_Nil)

lemma rstrip_idem: "rstrip c (rstrip c s) = rstrip c s"
  using rstrip_last [of c s] by (rule rstrip_fixed)

lemma rstrip_append_fixed: "b \<noteq> [] \<Longrightarrow> last b \<noteq> c \<Longrightarrow> rstrip c (a @ b) = a @ b"
  by (rule rstrip_fixed) simp

lemma rstrip_append_replicate: "rstrip c (s @ replicate k c) = rstrip c s"
proof (induction k)
  case 0
  show ?case by simp
next
  case (Suc k)
  have "s @ replicate (Suc k) c = (s @ replicate k c) @ [c]"
    by (simp add: replicate_append_same)
  then show ?case using Suc by (simp only: rstrip_snoc) simp
qed

lemma lower_chr_dot: "lower_chr c = CHR ''.'' \<longleftrightarrow> c = CHR ''.''"
proof
  assume h: "lower_chr c = CHR ''.''"
  show "c = CHR ''.''"
  proof (cases "65 \<le> (of_char c :: nat) \<and> (of_char c :: nat) \<le> 90")
    case True
    then have "(of_char (lower_chr c) :: nat) = of_char c + 32"
      by (simp add: lower_chr_def)
    then show ?thesis using h True by simp
  next
    case False
    then show ?thesis using h by (auto simp: lower_chr_def)
  qed
next
  assume "c = CHR ''.''"
  then show "lower_chr c = CHR ''.''" by (simp add: lower_chr_def)
qed

lemma rstrip_lower: "rstrip CHR ''.'' (str_lower s) = str_lower (rstrip CHR ''.'' s)"
  by (induction s rule: rev_induct) (simp_all add: rstrip_snoc rstrip_Nil str_lower_def lower_chr_dot)

lemma str_lower_append: "str_lower (a @ b) = str_lower a @ str_lower b"
  by (simp add: str_lower_def)

lemma lower_chr_idem: "lower_chr (lower_chr c) = lower_chr c"
proof (cases "65 \<le> (of_char c :: nat) \<and> (of_char c :: nat) \<le> 90")
  case True
  then have "(of_char (lower_chr c) :: nat) = of_char c + 32"
    by (simp add: lower_chr_def)
  then have "\<not> (of_char (lower_chr c) :: nat) \<le> 90" using True by simp
  then show ?thesis by (subst lower_chr_def) simp
next
  case False
  then show ?thesis by (auto simp: lower_chr_def)
qed

lemma str_lower_idem: "str_lower (str_lower s) = str_lower s"
  by (simp add: str_lower_def lower_chr_idem)

lemma split_ne: "split c s \<noteq> []"
  by (induction s) (auto split: list.splits)

lemma split_no_sep: "c \<notin> set s \<Longrightarrow> split c s = [s]"
  by (induction s) auto

lemma split_append_sep: "c \<notin> set a \<Longrightarrow> split c (a @ c # b) = a # split c b"
  by (induction a) auto

lemma join_Cons: "ps \<noteq> [] \<Longrightarrow> join c (p # ps) = p @ c # join c ps"
  by (cases ps) auto

lemma join_split: "join c (split c s) = s"
proof (induction s)
  case Nil
  show ?case by simp
next
  case (Cons x xs)
  show ?case
  proof (cases "x = c")
    case True
    then show ?thesis using Cons split_ne [of c xs] by (simp add: join_Cons)
  next
    case False
    obtain l ls where sp: "split c xs = l # ls"
      using split_ne [of c xs] by (cases "split c xs") auto
    then show ?thesis using Cons False by (cases ls) auto
  qed
qed

section \<open>Decimal formatting\<close>

lemma digit_chr_props:
  assumes "d < 10"
  shows "is_digit (digit_chr d)" and "digit_val (digit_chr d) = d"
  using assms by (simp_all add: is_digit_def digit_chr_def digit_val_def)

lemma is_digit_lower: "is_digit c \<Longrightarrow> lower_chr c = c"
  by (simp add: is_digit_def lower_chr_def)

lemma is_digit_not_special:
  assumes "is_digit c"
  shows "c \<noteq> CHR ''.''" and "c \<noteq> CHR ''n''" and "c \<noteq> CHR 0x0A" and "c \<noteq> CHR ''-''"
  using assms by (auto simp: is_digit_def)

lemma dec_digits_ne: "dec_digits n \<noteq> []"
  by (subst dec_digits.simps) simp

lemma dec_digits_is_digit: "c \<in> set (dec_digits n) \<Longrightarrow> is_digit c"
proof (induction n arbitrary: c rule: dec_digits.induct)
  case (1 n)
  show ?case
  proof (cases "n < 10")
    case True
    then have "dec_digits n = [digit_chr n]" by (subst dec_digits.simps) simp
    then show ?thesis using "1.prems" True by (simp add: digit_chr_props)
  next
    case False
    then have "dec_digits n = dec_digits (n div 10) @ [digit_chr (n mod 10)]"
      by (subst dec_digits.simps) simp
    then show ?thesis using "1.prems" "1.IH" False by (auto simp: digit_chr_props)
  qed
qed

lemma digits_val_snoc: "digits_val (ds @ [d]) = 10 * digits_val ds + digit_val d"
  by (simp add: digits_val_def)

lemma digits_val_dec_digits: "digits_val (dec_digits n) = n"
proof (induction n rule: dec_digits.induct)
  case (1 n)
  show ?case
  proof (cases "n < 10")
    case True
    then have "dec_digits n = [digit_chr n]" by (subst dec_digits.simps) simp
    then show ?thesis using True by (simp add: digits_val_def digit_chr_props)
  next
    case False
    then have "dec_digits n = dec_digits (n div 10) @ [digit_chr (n mod 10)]"
      by (subst dec_digits.simps) simp
    then show ?thesis using "1.IH" False by (simp add: digits_val_snoc digit_chr_props)
  qed
qed

lemma digits_val_zeros: "digits_val (replicate k CHR ''0'' @ ds) = digits_val ds"
proof -
  have "foldl (\<lambda>acc d. 10 * acc + digit_val d) 0 (replicate k CHR ''0'') = 0"
    by (induction k) (simp_all add: digit_val_def)
  then show ?thesis by (simp add: digits_val_def)
qed

lemma fmt04d_nonneg:
  assumes "0 \<le> index"
  shows "fmt04d index \<noteq> []" and "\<forall>c \<in> set (fmt04d index). is_digit c"
    and "int_of_digits (fmt04d index) = index"
proof -
  let ?ds = "dec_digits (nat index)"
  have eq: "fmt04d index = replicate (4 - length ?ds) CHR ''0'' @ ?ds"
    using assms by (simp add: fmt04d_def Let_def)
  show "fmt04d index \<noteq> []" using eq dec_digits_ne by simp
  have "is_digit CHR ''0''" by (simp add: is_digit_def)
  then show "\<forall>c \<in> set (fmt04d index). is_digit c"
    using eq dec_digits_is_digit by auto
  have "digits_val (fmt04d index) = nat index"
    by (simp only: eq digits_val_zeros digits_val_dec_digits)
  then show "int_of_digits (fmt04d index) = index"
    using assms by (simp add: int_of_digits_def digits_val_def)
qed

lemma fmt04d_no_dot: "CHR ''.'' \<notin> set (fmt04d index)"
proof -
  have "CHR ''.'' \<notin> set (dec_digits n)" for n
    using dec_digits_is_digit is_digit_not_special(1) by blast
  then show ?thesis by (auto simp: fmt04d_def Let_def)
qed

lemma fmt04d_lower: "str_lower (fmt04d index) = fmt04d index"
proof -
  have "map lower_chr (dec_digits n) = dec_digits n" for n
    by (rule map_idI) (simp add: dec_digits_is_digit is_digit_lower)
  moreover have "lower_chr CHR ''0'' = CHR ''0''" "lower_chr CHR ''-'' = CHR ''-''"
    by (simp_all add: lower_chr_def)
  ultimately show ?thesis by (simp add: fmt04d_def Let_def str_lower_def)
qed

lemma match_index_fmt:
  assumes "0 \<le> index"
  shows "match_index (CHR ''n'' # fmt04d index) = Some (fmt04d index)"
proof -
  have "last (fmt04d index) \<noteq> CHR 0x0A"
    using fmt04d_nonneg(1,2) [OF assms] is_digit_not_special(3) last_in_set by blast
  then show ?thesis
    using fmt04d_nonneg(1,2) [OF assms] by (simp add: match_index_def)
qed

section \<open>Node names and probe names\<close>

lemma endswith_append: "endswith (a @ b) b"
  by (simp add: endswith_def)

lemma endswith_Nil: "endswith s []"
  by (simp add: endswith_def)

lemma endswith_last: "endswith s t \<Longrightarrow> t \<noteq> [] \<Longrightarrow> s \<noteq> [] \<and> last s = last t"
proof -
  assume a: "endswith s t" and b: "t \<noteq> []"
  then have "s = take (length s - length t) s @ t"
    by (metis append_take_drop_id endswith_def)
  then show ?thesis using b by (metis Nil_is_append_conv last_appendR)
qed

text \<open>
  Claim C10. \<^verbatim>\<open>node_name_for_index\<close>, \<^verbatim>\<open>in_gap_name\<close>, \<^verbatim>\<open>verification_in_gap_name\<close> and
  \<^verbatim>\<open>parse_node_name\<close> return the same result for a zone with and without a trailing
  root dot, whatever the other arguments are.
\<close>

theorem zone_trailing_dot_insensitive:
  "node_name_for_index index payload (zone @ ''.'') absolute = node_name_for_index index payload zone absolute
   \<and> in_gap_name index (zone @ ''.'') suffix absolute = in_gap_name index zone suffix absolute
   \<and> verification_in_gap_name index (zone @ ''.'') variant = verification_in_gap_name index zone variant
   \<and> parse_node_name name (zone @ ''.'') = parse_node_name name zone"
  by (simp add: node_name_for_index_def in_gap_name_def verification_in_gap_name_def
      parse_node_name_def rstrip_snoc)

lemma parse_node_name_inverse_aux:
  assumes idx: "0 \<le> index" and pl: "str_lower payload = payload"
    and zl: "str_lower zone = zone" and zne: "zone \<noteq> []" and zlast: "last zone \<noteq> CHR ''.''"
  shows "parse_node_name (node_name_for_index index payload zone True) zone = Some (index, payload)"
proof -
  let ?pre = "CHR ''n'' # fmt04d index"
  let ?front = "?pre @ CHR ''.'' # payload"
  let ?name0 = "?front @ CHR ''.'' # zone"
  have rz: "rstrip CHR ''.'' zone = zone"
    using zne zlast by (simp add: rstrip_fixed)
  have nn: "node_name_for_index index payload zone True = ?name0 @ ''.''"
    by (simp add: node_name_for_index_def rz)
  have "rstrip CHR ''.'' (?name0 @ ''.'') = rstrip CHR ''.'' ?name0"
    by (simp only: rstrip_snoc) simp
  also have "\<dots> = ?name0"
    using zne zlast by (intro rstrip_fixed) simp
  finally have r1: "rstrip CHR ''.'' (?name0 @ ''.'') = ?name0" .
  have ln: "lower_chr CHR ''n'' = CHR ''n''" "lower_chr CHR ''.'' = CHR ''.''"
    by (simp_all add: lower_chr_def)
  have fl: "map lower_chr (fmt04d index) = fmt04d index"
    using fmt04d_lower [of index] by (simp add: str_lower_def)
  have low: "str_lower ?name0 = ?name0"
    using pl zl by (simp add: str_lower_def ln fl)
  have nodot: "CHR ''.'' \<notin> set ?pre"
    using fmt04d_no_dot by simp
  have sp: "split CHR ''.'' ?front = ?pre # split CHR ''.'' payload"
    using nodot by (rule split_append_sep)
  obtain l ls where spp: "split CHR ''.'' payload = l # ls"
    using split_ne [of "CHR ''.''" payload] by (cases "split CHR ''.'' payload") auto
  have j: "join CHR ''.'' (l # ls) = payload"
    using join_split [of "CHR ''.''" payload] spp by simp
  have e: "endswith ?name0 (CHR ''.'' # zone)"
    using endswith_append [of ?front "CHR ''.'' # zone"] by simp
  have t: "take (length ?name0 - length (CHR ''.'' # zone)) ?name0 = ?front"
    by simp
  show ?thesis
    unfolding parse_node_name_def nn rz Let_def r1 low zl
    using e t sp spp j match_index_fmt [OF idx] fmt04d_nonneg(3) [OF idx]
    by (simp del: split.simps join.simps)
qed

lemma in_gap_rstrip:
  assumes c: "c \<noteq> CHR ''.''"
  shows "rstrip CHR ''.'' (in_gap_name index zone [c] absolute)
         = (CHR ''n'' # fmt04d index @ [c])
           @ (if rstrip CHR ''.'' zone = [] then [] else CHR ''.'' # rstrip CHR ''.'' zone)"
proof -
  let ?z = "rstrip CHR ''.'' zone"
  let ?label = "CHR ''n'' # fmt04d index @ [c]"
  have zl: "?z = [] \<or> last ?z \<noteq> CHR ''.''" by (rule rstrip_last)
  have base: "rstrip CHR ''.'' (?label @ CHR ''.'' # ?z)
              = ?label @ (if ?z = [] then [] else CHR ''.'' # ?z)"
  proof (cases "?z = []")
    case True
    have "rstrip CHR ''.'' (?label @ [CHR ''.'']) = rstrip CHR ''.'' ?label"
      by (simp only: rstrip_snoc) simp
    also have "\<dots> = ?label" using c by (intro rstrip_fixed) simp
    finally show ?thesis using True by simp
  next
    case False
    then have "rstrip CHR ''.'' (?label @ CHR ''.'' # ?z) = ?label @ CHR ''.'' # ?z"
      using zl by (intro rstrip_fixed) simp
    then show ?thesis using False by simp
  qed
  show ?thesis
  proof (cases absolute)
    case True
    have "in_gap_name index zone [c] True = (?label @ CHR ''.'' # ?z) @ [CHR ''.'']"
      by (simp add: in_gap_name_def)
    then have "rstrip CHR ''.'' (in_gap_name index zone [c] True)
               = rstrip CHR ''.'' (?label @ CHR ''.'' # ?z)"
      by (simp only: rstrip_snoc) simp
    then show ?thesis using base True by simp
  next
    case False
    have "in_gap_name index zone [c] False = ?label @ CHR ''.'' # ?z"
      by (simp add: in_gap_name_def)
    then show ?thesis using base False by simp
  qed
qed

lemma probe_not_node_aux:
  assumes c: "c \<noteq> CHR ''.''"
  shows "parse_node_name (in_gap_name index zone [c] absolute) zone = None"
    and "extract_payload_from_next_name (in_gap_name index zone [c] absolute) zone = None"
proof -
  let ?z = "rstrip CHR ''.'' zone"
  let ?label = "CHR ''n'' # fmt04d index @ [c]"
  let ?L = "str_lower ?label"
  let ?Z = "str_lower ?z"
  let ?name = "in_gap_name index zone [c] absolute"
  have "CHR ''.'' \<notin> set ?label"
    using c fmt04d_no_dot [of index] by simp
  then have "x \<in> set ?label \<Longrightarrow> lower_chr x \<noteq> CHR ''.''" for x
    by (metis lower_chr_dot)
  then have nodot: "CHR ''.'' \<notin> set ?L"
    unfolding str_lower_def set_map by (metis imageE)
  have Lne: "?L \<noteq> []" by (simp add: str_lower_def)
  have Llast: "last ?L \<noteq> CHR ''.''"
    using nodot Lne last_in_set by metis
  have sp: "split CHR ''.'' ?L = [?L]"
    using nodot by (rule split_no_sep)
  have nm: "str_lower (rstrip CHR ''.'' ?name) = ?L @ (if ?z = [] then [] else CHR ''.'' # ?Z)"
    by (simp only: in_gap_rstrip [OF c] str_lower_append) (simp add: str_lower_def lower_chr_def)
  have nm2: "rstrip CHR ''.'' (str_lower ?name) = ?L @ (if ?z = [] then [] else CHR ''.'' # ?Z)"
    using nm by (simp only: rstrip_lower)
  have zz: "rstrip CHR ''.'' (str_lower zone) = ?Z" by (rule rstrip_lower)
  show "parse_node_name ?name zone = None"
  proof (cases "?z = []")
    case True
    then have "str_lower (rstrip CHR ''.'' ?name) = ?L" using nm by simp
    moreover have "\<not> endswith ?L ''.''"
      using endswith_last [of ?L "''.''"] Llast by auto
    ultimately show ?thesis using True
      by (simp add: parse_node_name_def Let_def str_lower_def)
  next
    case False
    then have n: "str_lower (rstrip CHR ''.'' ?name) = ?L @ CHR ''.'' # ?Z" using nm by simp
    have t: "take (length (?L @ CHR ''.'' # ?Z) - length (CHR ''.'' # ?Z)) (?L @ CHR ''.'' # ?Z) = ?L"
      by simp
    show ?thesis
      unfolding parse_node_name_def Let_def n
      using t sp by (simp del: split.simps)
  qed
  show "extract_payload_from_next_name ?name zone = None"
  proof (cases "?z = []")
    case True
    then have n: "rstrip CHR ''.'' (str_lower ?name) = ?L" using nm2 by simp
    have Z: "?Z = []" using True by (simp add: str_lower_def)
    have "\<not> endswith ?L ''.''"
      using endswith_last [of ?L "''.''"] Llast by auto
    then show ?thesis
      unfolding extract_payload_from_next_name_def Let_def n zz Z
      using sp by (simp del: split.simps)
  next
    case False
    then have n: "rstrip CHR ''.'' (str_lower ?name) = ?L @ CHR ''.'' # ?Z" using nm2 by simp
    have e: "endswith (?L @ CHR ''.'' # ?Z) (''.'' @ ?Z)"
      using endswith_append [of ?L "CHR ''.'' # ?Z"] by simp
    have t: "take (length (?L @ CHR ''.'' # ?Z) - length (''.'' @ ?Z)) (?L @ CHR ''.'' # ?Z) = ?L"
      by simp
    show ?thesis
      unfolding extract_payload_from_next_name_def Let_def n zz
      using e t sp by (simp del: split.simps)
  qed
qed

lemma b32_lower_fixed: "is_b32_lower c \<or> c = CHR ''.'' \<Longrightarrow> lower_chr c = c"
  by (auto simp: is_b32_lower_def lower_chr_def)

lemma valid_payload_lower: "valid_payload_text p \<Longrightarrow> str_lower p = p"
  unfolding str_lower_def valid_payload_text_def
  by (intro map_idI) (simp add: b32_lower_fixed)

lemmas literal_eval = fmt04d_def dec_digits.simps digit_chr_def char_of_eq_iff numeral_3_eq_3
  rstrip_def str_lower_def lower_chr_def

lemma node_name_0: "node_name_for_index 0 ''nbswy3dp'' ''zone.test'' True = ''n0000.nbswy3dp.zone.test.''"
  by (simp add: node_name_for_index_def literal_eval)

lemma in_gap_0_z: "in_gap_name 0 ''zone.test'' ''z'' True = ''n0000z.zone.test.''"
  by (simp add: in_gap_name_def literal_eval)

lemma in_gap_0_dot: "in_gap_name 0 ''zone.test'' ''.'' True = ''n0000..zone.test.''"
  by (simp add: in_gap_name_def literal_eval)

text \<open>
  Claim C3. For every index \<open>\<ge> 0\<close>, every valid payload text and every valid zone,
  parsing the absolute node name built from them, with the same zone, gives back the
  index and the payload text.
\<close>

theorem parse_node_name_inverse:
  assumes "0 \<le> index" and "valid_payload_text payload_text" and "valid_zone zone"
  shows "parse_node_name (node_name_for_index index payload_text zone True) zone
         = Some (index, payload_text)"
  using assms valid_payload_lower [of payload_text]
  by (intro parse_node_name_inverse_aux) (simp_all add: valid_zone_def)

theorem parse_node_name_inverse_witness:
  "(0::int) \<le> 0 \<and> valid_payload_text ''nbswy3dp'' \<and> valid_zone ''zone.test''
   \<and> parse_node_name ''n0000.nbswy3dp.zone.test.'' ''zone.test'' = Some (0, ''nbswy3dp'')"
proof -
  have v: "valid_payload_text ''nbswy3dp''"
    by (simp add: valid_payload_text_def is_b32_lower_def)
  have z: "valid_zone ''zone.test''"
    by (simp add: valid_zone_def str_lower_def lower_chr_def)
  show ?thesis
    using parse_node_name_inverse [OF _ v z, of 0] v z by (simp add: node_name_0)
qed

text \<open>
  Claim C9, as stated, for the suffix \<open>.\<close>: the probe name \<^verbatim>\<open>n0000..zone.test.\<close> has two
  labels before the zone, the second one empty, and both parsers accept it.
\<close>

theorem probe_dot_suffix_counterexample:
  "parse_node_name (in_gap_name 0 ''zone.test'' ''.'' True) ''zone.test'' = Some (0, [])
   \<and> extract_payload_from_next_name (in_gap_name 0 ''zone.test'' ''.'' True) ''zone.test'' = Some []"
proof -
  have "parse_node_name ''n0000..zone.test.'' ''zone.test'' = Some (0, [])"
    by (simp add: parse_node_name_def rstrip_def str_lower_def lower_chr_def endswith_def
        match_index_def is_digit_def int_of_digits_def digit_val_def)
  moreover have "extract_payload_from_next_name ''n0000..zone.test.'' ''zone.test'' = Some []"
    by (simp add: extract_payload_from_next_name_def rstrip_def str_lower_def lower_chr_def
        endswith_def startswith_def)
  ultimately show ?thesis by (simp only: in_gap_0_dot)
qed

text \<open>
  Claim C9, amended. For every index, every zone and every single-character suffix other
  than the dot, the probe name is one dot-free label followed by the zone, and neither
  \<^verbatim>\<open>parse_node_name\<close> nor \<^verbatim>\<open>extract_payload_from_next_name\<close> takes it for a payload node.
\<close>

theorem probe_names_not_nodes:
  assumes "c \<noteq> CHR ''.''"
  shows "(\<exists>label. CHR ''.'' \<notin> set label
            \<and> in_gap_name index zone [c] False = label @ ''.'' @ rstrip CHR ''.'' zone)
         \<and> parse_node_name (in_gap_name index zone [c] absolute) zone = None
         \<and> extract_payload_from_next_name (in_gap_name index zone [c] absolute) zone = None"
proof -
  have "CHR ''.'' \<notin> set (''n'' @ fmt04d index @ [c])"
    using assms fmt04d_no_dot [of index] by simp
  moreover have "in_gap_name index zone [c] False
                 = (''n'' @ fmt04d index @ [c]) @ ''.'' @ rstrip CHR ''.'' zone"
    by (simp add: in_gap_name_def)
  ultimately have "\<exists>label. CHR ''.'' \<notin> set label
            \<and> in_gap_name index zone [c] False = label @ ''.'' @ rstrip CHR ''.'' zone"
    by blast
  then show ?thesis using probe_not_node_aux [OF assms] by simp
qed

theorem probe_names_not_nodes_witness:
  "CHR ''z'' \<noteq> CHR ''.''
   \<and> parse_node_name ''n0000z.zone.test.'' ''zone.test'' = None
   \<and> extract_payload_from_next_name ''n0000z.zone.test.'' ''zone.test'' = None"
  using probe_names_not_nodes [of "CHR ''z''" 0 "''zone.test''" True]
  by (simp add: in_gap_0_z)

text \<open>
  Claim C5 at the name \<^verbatim>\<open>n0001.abc.xzone.test.\<close> for the zone \<^verbatim>\<open>zone.test\<close>: the name
  does not end with the zone as a dot-separated suffix, its text only ends with the
  letters of the zone; the function returns a payload all the same, with the labels of
  the foreign zone in it.
\<close>

theorem extract_payload_foreign_zone:
  "\<not> endswith ''n0001.abc.xzone.test'' ''.zone.test''
   \<and> extract_payload_from_next_name ''n0001.abc.xzone.test.'' ''zone.test''
       = Some ''abc.xzone.test''"
  by (simp add: extract_payload_from_next_name_def rstrip_def str_lower_def lower_chr_def
      endswith_def startswith_def)

section \<open>Order of probe names and node names\<close>

lemma str_lt_append_same: "str_lt (p @ a) (p @ b) = str_lt a b"
  by (induction p) simp_all

lemma str_lt_Nil: "str_lt [] b = (b \<noteq> [])"
  by (cases b) simp_all

lemma rstrip_Cons_same: "rstrip c (c # b) = (if rstrip c b = [] then [] else c # rstrip c b)"
  by (induction b rule: rev_induct) (auto simp: rstrip_def)

lemma rstrip_append: "rstrip c (a @ b) = (if rstrip c b = [] then rstrip c a else a @ rstrip c b)"
proof (induction b rule: rev_induct)
  case Nil
  show ?case by (simp add: rstrip_Nil)
next
  case (snoc x xs)
  have "rstrip c (a @ xs @ [x]) = (if x = c then rstrip c (a @ xs) else a @ xs @ [x])"
    using rstrip_snoc [of c "a @ xs" x] by simp
  then show ?case using snoc by (simp add: rstrip_snoc)
qed

lemma foldl_digits:
  fixes f :: "nat \<Rightarrow> char \<Rightarrow> nat"
  defines "f \<equiv> \<lambda>acc d. 10 * acc + digit_val d"
  shows "foldl f acc ds = acc * 10 ^ length ds + foldl f 0 ds"
proof (induction ds arbitrary: acc)
  case Nil
  show ?case by simp
next
  case (Cons d ds)
  have "foldl f acc (d # ds) = foldl f (10 * acc + digit_val d) ds"
    by (simp add: f_def)
  also have "\<dots> = (10 * acc + digit_val d) * 10 ^ length ds + foldl f 0 ds"
    by (rule Cons)
  finally have a: "foldl f acc (d # ds)
                   = (10 * acc + digit_val d) * 10 ^ length ds + foldl f 0 ds" .
  have "foldl f 0 (d # ds) = foldl f (digit_val d) ds"
    by (simp add: f_def)
  also have "\<dots> = digit_val d * 10 ^ length ds + foldl f 0 ds"
    by (rule Cons)
  finally show ?case using a by (simp add: algebra_simps)
qed

lemma digits_val_Cons: "digits_val (d # ds) = digit_val d * 10 ^ length ds + digits_val ds"
  using foldl_digits [of "digit_val d" ds] by (simp add: digits_val_def)

lemma digits_val_bound: "\<forall>d \<in> set ds. is_digit d \<Longrightarrow> digits_val ds < 10 ^ length ds"
proof (induction ds)
  case Nil
  show ?case by (simp add: digits_val_def)
next
  case (Cons d ds)
  have "is_digit d" using Cons.prems by simp
  then have "digit_val d \<le> 9" unfolding is_digit_def digit_val_def by linarith
  then have "digit_val d * 10 ^ length ds \<le> 9 * 10 ^ length ds"
    by (rule mult_le_mono1)
  moreover have "digits_val ds < 10 ^ length ds" using Cons by simp
  ultimately have "digit_val d * 10 ^ length ds + digits_val ds < 10 * 10 ^ length ds"
    by linarith
  then show ?case by (simp add: digits_val_Cons)
qed

lemma digits_lex:
  assumes "length a = length b"
    and "\<forall>d \<in> set a. is_digit d" and "\<forall>d \<in> set b. is_digit d"
    and "digits_val a < digits_val b"
  shows "str_lt (a @ x) (b @ y)"
  using assms
proof (induction a b rule: list_induct2)
  case Nil
  then show ?case by (simp add: digits_val_def)
next
  case (Cons c a d b)
  let ?N = "10 ^ length a :: nat"
  have va: "digits_val (c # a) = digit_val c * ?N + digits_val a"
    by (rule digits_val_Cons)
  have vb: "digits_val (d # b) = digit_val d * ?N + digits_val b"
    using Cons.hyps by (simp add: digits_val_Cons)
  have bb: "digits_val b < ?N"
    using digits_val_bound [of b] Cons.prems(2) Cons.hyps by simp
  have dc: "is_digit c" and dd: "is_digit d" using Cons.prems by simp_all
  consider "(of_char c :: nat) < of_char d" | "c = d" | "(of_char d :: nat) < of_char c"
    using of_char_eq_iff [of c d, where ?'a = nat] by (metis linorder_neqE_nat)
  then show ?case
  proof cases
    case 1
    then show ?thesis by simp
  next
    case 2
    then have "digits_val a < digits_val b" using Cons.prems(3) va vb by simp
    then show ?thesis using Cons 2 by simp
  next
    case 3
    then have "digit_val d + 1 \<le> digit_val c"
      using dc dd unfolding is_digit_def digit_val_def by linarith
    then have "(digit_val d + 1) * ?N \<le> digit_val c * ?N"
      by (rule mult_le_mono1)
    then have "digit_val d * ?N + ?N \<le> digit_val c * ?N"
      by (simp add: algebra_simps)
    then have "digits_val (d # b) < digits_val (c # a)"
      using va vb bb by linarith
    then show ?thesis using Cons.prems(3) by simp
  qed
qed

lemma fmt04d_ne: "fmt04d index \<noteq> []"
  by (simp add: fmt04d_def Let_def dec_digits_ne)

lemma node_name_stripped:
  "\<exists>t. rstrip CHR ''.'' (str_lower (node_name_for_index index p zone absolute))
         = (CHR ''n'' # fmt04d index) @ t \<and> (t = [] \<or> hd t = CHR ''.'')"
proof -
  let ?pre = "CHR ''n'' # fmt04d index"
  have "\<exists>R. node_name_for_index index p zone absolute = ?pre @ CHR ''.'' # R"
    by (cases absolute) (simp_all add: node_name_for_index_def Let_def)
  then obtain R where nn: "node_name_for_index index p zone absolute = ?pre @ CHR ''.'' # R"
    by blast
  have fl: "map lower_chr (fmt04d index) = fmt04d index"
    using fmt04d_lower [of index] by (simp add: str_lower_def)
  have low: "str_lower (?pre @ CHR ''.'' # R) = ?pre @ CHR ''.'' # str_lower R"
    by (simp add: str_lower_def fl lower_chr_def)
  have "last (fmt04d index) \<in> set (fmt04d index)"
    using fmt04d_ne by (rule last_in_set)
  then have "last (fmt04d index) \<noteq> CHR ''.''"
    using fmt04d_no_dot [of index] by metis
  then have "last ?pre \<noteq> CHR ''.''"
    using fmt04d_ne [of index] by simp
  then have rp: "rstrip CHR ''.'' ?pre = ?pre"
    by (intro rstrip_fixed) simp
  let ?t = "rstrip CHR ''.'' (CHR ''.'' # str_lower R)"
  have t: "?t = [] \<or> hd ?t = CHR ''.''"
    by (simp add: rstrip_Cons_same)
  have "rstrip CHR ''.'' (?pre @ CHR ''.'' # str_lower R) = ?pre @ ?t"
    using rp rstrip_append [of "CHR ''.''" ?pre "CHR ''.'' # str_lower R"] by simp
  then show ?thesis using nn low t by metis
qed

lemma in_gap_stripped:
  assumes "c \<noteq> CHR ''.''"
  shows "\<exists>u. rstrip CHR ''.'' (str_lower (in_gap_name index zone [c] absolute))
             = (CHR ''n'' # fmt04d index) @ lower_chr c # u"
proof -
  have fl: "map lower_chr (fmt04d index) = fmt04d index"
    using fmt04d_lower [of index] by (simp add: str_lower_def)
  have "rstrip CHR ''.'' (str_lower (in_gap_name index zone [c] absolute))
        = str_lower (rstrip CHR ''.'' (in_gap_name index zone [c] absolute))"
    by (rule rstrip_lower)
  also have "\<dots> = (CHR ''n'' # fmt04d index) @ lower_chr c
                 # str_lower (if rstrip CHR ''.'' zone = [] then []
                              else CHR ''.'' # rstrip CHR ''.'' zone)"
    by (simp only: in_gap_rstrip [OF assms]) (simp add: str_lower_def fl lower_chr_def)
  finally show ?thesis by blast
qed

lemma in_gap_between_aux:
  assumes idx: "0 \<le> index"
    and len: "length (fmt04d (index + 1)) = length (fmt04d index)"
    and c: "46 < (of_char (lower_chr c) :: nat)"
  shows "is_name_between (in_gap_name index zone [c] a1)
           (node_name_for_index index p zone a2)
           (node_name_for_index (index + 1) p' zone a3)"
proof -
  let ?f = "fmt04d index" and ?g = "fmt04d (index + 1)"
  have cdot: "c \<noteq> CHR ''.''"
    using c by (auto simp: lower_chr_def)
  obtain u where G: "rstrip CHR ''.'' (str_lower (in_gap_name index zone [c] a1))
                     = (CHR ''n'' # ?f) @ lower_chr c # u"
    using in_gap_stripped [OF cdot] by blast
  obtain t where L: "rstrip CHR ''.'' (str_lower (node_name_for_index index p zone a2))
                     = (CHR ''n'' # ?f) @ t" and t: "t = [] \<or> hd t = CHR ''.''"
    using node_name_stripped by blast
  obtain t' where U: "rstrip CHR ''.'' (str_lower (node_name_for_index (index + 1) p' zone a3))
                      = (CHR ''n'' # ?g) @ t'"
    using node_name_stripped by blast
  have "str_lt t (lower_chr c # u)"
  proof (cases t)
    case Nil
    then show ?thesis by simp
  next
    case (Cons x xs)
    then have "x = CHR ''.''" using t by simp
    then show ?thesis using Cons c by simp
  qed
  then have lo: "str_lt ((CHR ''n'' # ?f) @ t) ((CHR ''n'' # ?f) @ lower_chr c # u)"
    by (simp only: str_lt_append_same)
  have idx1: "0 \<le> index + 1" using idx by simp
  have "digits_val ?f = nat index" "digits_val ?g = nat (index + 1)"
    using fmt04d_nonneg(3) [OF idx] fmt04d_nonneg(3) [OF idx1] idx
    by (simp_all add: int_of_digits_def digits_val_def)
  then have "digits_val ?f < digits_val ?g" using idx by simp
  then have "str_lt (?f @ lower_chr c # u) (?g @ t')"
    using len fmt04d_nonneg(2) [OF idx] fmt04d_nonneg(2) [OF idx1]
    by (intro digits_lex) simp_all
  then have hi: "str_lt ((CHR ''n'' # ?f) @ lower_chr c # u) ((CHR ''n'' # ?g) @ t')"
    by simp
  show ?thesis
    unfolding is_name_between_def Let_def G L U using lo hi by simp
qed

lemma gap_names_map:
  "gap_names index zone = map (\<lambda>c. in_gap_name index zone [c] True) ''zmkjhgfedcb''"
  by (simp add: gap_names_def verification_in_gap_name_def suffixes_def)

lemma gap_names_distinct: "distinct (gap_names index zone)"
proof -
  have "inj (\<lambda>c. in_gap_name index zone [c] True)"
    by (rule injI) (simp add: in_gap_name_def)
  then have "inj_on (\<lambda>c. in_gap_name index zone [c] True) (set ''zmkjhgfedcb'')"
    by (rule inj_on_subset) simp
  moreover have "distinct ''zmkjhgfedcb''" by simp
  ultimately show ?thesis
    unfolding gap_names_map by (simp only: distinct_map)
qed

lemma suffix_above_dot: "c \<in> set ''zmkjhgfedcb'' \<Longrightarrow> 46 < (of_char (lower_chr c) :: nat)"
  by (auto simp: lower_chr_def)

lemma dec_digits_length: "n < 10 ^ k \<Longrightarrow> 0 < k \<Longrightarrow> length (dec_digits n) \<le> k"
proof (induction k arbitrary: n)
  case 0
  then show ?case by simp
next
  case (Suc k)
  show ?case
  proof (cases "n < 10")
    case True
    then show ?thesis by (subst dec_digits.simps) simp
  next
    case False
    then have k: "0 < k" using Suc.prems by (cases k) simp_all
    have "n div 10 < 10 ^ k" using Suc.prems by (simp add: less_mult_imp_div_less mult.commute)
    then have "length (dec_digits (n div 10)) \<le> k" using Suc.IH k by simp
    then show ?thesis using False by (subst dec_digits.simps) simp
  qed
qed

lemma fmt04d_width: "0 \<le> index \<Longrightarrow> index < 10000 \<Longrightarrow> length (fmt04d index) = 4"
proof -
  assume a: "0 \<le> index" "index < 10000"
  then have "nat index < 10 ^ 4" by simp
  then have "length (dec_digits (nat index)) \<le> 4"
    by (rule dec_digits_length) simp
  then show ?thesis using a by (simp add: fmt04d_def Let_def)
qed

lemma fmt04d_9999: "fmt04d 9999 = ''9999''" "fmt04d 10000 = ''10000''"
  by (simp_all add: fmt04d_def dec_digits.simps digit_chr_def char_of_eq_iff)

lemma names_9999:
  "in_gap_name 9999 ''zone.test'' ''z'' True = ''n9999z.zone.test.''"
  "node_name_for_index 9999 ''a'' ''zone.test'' True = ''n9999.a.zone.test.''"
  "node_name_for_index 10000 ''a'' ''zone.test'' True = ''n10000.a.zone.test.''"
  by (simp_all add: in_gap_name_def node_name_for_index_def fmt04d_9999 rstrip_def)

lemma names_0:
  "node_name_for_index 0 ''a'' ''zone.test'' True = ''n0000.a.zone.test.''"
  "node_name_for_index 1 ''b'' ''zone.test'' True = ''n0001.b.zone.test.''"
  by (simp_all add: node_name_for_index_def literal_eval)

text \<open>
  Claim C2, amended. For every index \<open>\<ge> 0\<close> whose successor is printed with as many
  digits, in particular for every index below 9999, and every zone, the eleven probe names
  are pairwise distinct and each of them lies strictly between the node name of the
  index, whatever its payload, and the node name of the next index, whatever its payload,
  in the order of \<^verbatim>\<open>is_name_between\<close>.
\<close>

theorem in_gap_interval:
  assumes "0 \<le> index"
    and "index < 9999 \<or> length (fmt04d (index + 1)) = length (fmt04d index)"
  shows "length (gap_names index zone) = 11 \<and> distinct (gap_names index zone)
         \<and> (\<forall>gap \<in> set (gap_names index zone).
               is_name_between gap
                 (node_name_for_index index payload zone absolute)
                 (node_name_for_index (index + 1) payload' zone absolute'))"
proof -
  have len: "length (fmt04d (index + 1)) = length (fmt04d index)"
  proof (cases "index < 9999")
    case True
    then show ?thesis using assms(1) fmt04d_width [of index] fmt04d_width [of "index + 1"]
      by simp
  next
    case False
    then show ?thesis using assms(2) by simp
  qed
  have "is_name_between (in_gap_name index zone [c] True)
          (node_name_for_index index payload zone absolute)
          (node_name_for_index (index + 1) payload' zone absolute')"
    if "c \<in> set ''zmkjhgfedcb''" for c
    using assms(1) len suffix_above_dot [OF that] by (rule in_gap_between_aux)
  then have "\<forall>gap \<in> set (gap_names index zone).
               is_name_between gap
                 (node_name_for_index index payload zone absolute)
                 (node_name_for_index (index + 1) payload' zone absolute')"
    unfolding gap_names_map by (simp only: set_map ball_simps) blast
  moreover have "length (gap_names index zone) = 11"
    by (simp add: gap_names_def)
  ultimately show ?thesis using gap_names_distinct by blast
qed

theorem in_gap_interval_witness:
  "(0::int) \<le> 0 \<and> (0::int) < 9999
   \<and> distinct (gap_names 0 ''zone.test'')
   \<and> is_name_between ''n0000z.zone.test.'' ''n0000.a.zone.test.'' ''n0001.b.zone.test.''"
  using in_gap_interval [of 0 "''zone.test''" "''a''" True "''b''" True]
  by (simp add: gap_names_map in_gap_0_z names_0)

text \<open>
  Claim C2, as stated, at index 9999: the next index is printed with five digits, and
  \<^verbatim>\<open>n9999z.zone.test\<close> sorts after \<^verbatim>\<open>n10000.a.zone.test\<close>.
\<close>

theorem in_gap_9999_counterexample:
  "\<not> is_name_between (in_gap_name 9999 ''zone.test'' ''z'' True)
        (node_name_for_index 9999 ''a'' ''zone.test'' True)
        (node_name_for_index (9999 + 1) ''a'' ''zone.test'' True)"
proof -
  have "\<not> is_name_between ''n9999z.zone.test.'' ''n9999.a.zone.test.'' ''n10000.a.zone.test.''"
    by (simp add: is_name_between_def rstrip_def str_lower_def lower_chr_def)
  then show ?thesis by (simp add: names_9999)
qed

section \<open>Base32 round trip and the payload pipeline\<close>

lemma range_slices_Cons: "0 < k \<Longrightarrow> length a = k \<Longrightarrow> range_slices 0 k (a @ b) = a # range_slices 0 k b"
  by (subst range_slices_0) auto

lemma range_slices_single: "0 < length t \<Longrightarrow> length t \<le> k \<Longrightarrow> range_slices 0 k t = [t]"
proof -
  assume a: "0 < length t" "length t \<le> k"
  then have k: "0 < k" by linarith
  have ne: "t \<noteq> []" using a by auto
  have e: "range_slices 0 k [] = []" by (simp add: range_slices_0)
  have "range_slices 0 k t = take k t # range_slices 0 k (drop k t)"
    using k ne range_slices_0 [of k t] by simp
  then show ?thesis using a e by simp
qed

lemma range_slices_concat:
  "0 < k \<Longrightarrow> \<forall>x \<in> set xs. length x = k \<Longrightarrow> range_slices 0 k (concat xs @ t) = xs @ range_slices 0 k t"
  by (induction xs) (simp_all add: range_slices_Cons)

lemma range_slices_blocks:
  assumes "0 < k" and "k dvd length s"
  shows "\<forall>x \<in> set (range_slices 0 k s). length x = k"
  using assms(2)
proof (induction "length s" arbitrary: s rule: less_induct)
  case less
  show ?case
  proof (cases "s = []")
    case True
    then show ?thesis by (simp add: range_slices_0)
  next
    case False
    then have "k \<le> length s" using less.prems assms(1) by (simp add: dvd_imp_le)
    then have t: "length (take k s) = k" by simp
    have "k dvd length (drop k s)" using less.prems \<open>k \<le> length s\<close> by (simp add: dvd_diff_nat)
    moreover have "length (drop k s) < length s" using False assms(1) by simp
    ultimately have "\<forall>x \<in> set (range_slices 0 k (drop k s)). length x = k"
      using less.hyps by blast
    then show ?thesis using False assms(1) t by (subst range_slices_0) simp
  qed
qed

lemma range_slices_append:
  assumes "0 < k" and "k dvd length a"
  shows "range_slices 0 k (a @ b) = range_slices 0 k a @ range_slices 0 k b"
proof -
  have "range_slices 0 k (concat (range_slices 0 k a) @ b) = range_slices 0 k a @ range_slices 0 k b"
    using assms by (intro range_slices_concat range_slices_blocks)
  then show ?thesis using assms(1) by (simp add: concat_range_slices)
qed

lemma from_bytes_snoc: "from_bytes (s @ [b]) = from_bytes s * 256 + of_char b"
  by (simp add: from_bytes_def)

lemma from_bytes_append: "from_bytes (a @ b) = from_bytes a * 256 ^ length b + from_bytes b"
proof (induction b rule: rev_induct)
  case Nil
  show ?case by (simp add: from_bytes_def)
next
  case (snoc x xs)
  have "from_bytes (a @ xs @ [x]) = from_bytes (a @ xs) * 256 + of_char x"
    using from_bytes_snoc [of "a @ xs" x] by simp
  then show ?case using snoc by (simp add: from_bytes_snoc algebra_simps)
qed

lemma from_bytes_bound: "from_bytes s < 256 ^ length s"
proof (induction s rule: rev_induct)
  case Nil
  show ?case by (simp add: from_bytes_def)
next
  case (snoc x xs)
  have "(of_char x :: nat) < 256" by simp
  then have "from_bytes xs * 256 + of_char x < (from_bytes xs + 1) * 256" by simp
  also have "\<dots> \<le> 256 ^ length xs * 256"
    using snoc by (intro mult_le_mono1) simp
  finally show ?case by (simp add: from_bytes_snoc)
qed

lemma from_bytes_zeros: "from_bytes (replicate k (CHR 0x00)) = 0"
proof -
  have "foldl (\<lambda>acc b. acc * 256 + of_char b) 0 (replicate k (CHR 0x00)) = (0::nat)"
    by (induction k) simp_all
  then show ?thesis by (simp add: from_bytes_def)
qed

lemma char_of_low: "char_of (h * 256 + of_char b :: nat) = b"
  by (rule of_char_eqI [where ?'a = nat]) simp

lemma div_low: "(h * 256 + of_char b :: nat) div 256 = h"
  by simp

lemma to_bytes5_from_bytes:
  assumes "length q = 5"
  shows "to_bytes5 (from_bytes q) = q"
proof -
  obtain b0 b1 b2 b3 b4 where q: "q = [b0, b1, b2, b3, b4]"
    using assms by (auto simp: length_Suc_conv numeral_eq_Suc)
  define n1 :: nat where "n1 = of_char b0"
  define n2 where "n2 = n1 * 256 + of_char b1"
  define n3 where "n3 = n2 * 256 + of_char b2"
  define n4 where "n4 = n3 * 256 + of_char b3"
  define n5 where "n5 = n4 * 256 + of_char b4"
  have n: "from_bytes [b0, b1, b2, b3, b4] = n5"
    by (simp add: from_bytes_def n5_def n4_def n3_def n2_def n1_def)
  have d1: "n5 div 2 ^ 8 = n4" unfolding n5_def by simp
  have "n5 div 2 ^ 16 = n5 div 2 ^ 8 div 2 ^ 8" by (simp add: div_mult2_eq)
  then have d2: "n5 div 2 ^ 16 = n3" unfolding d1 unfolding n4_def by simp
  have "n5 div 2 ^ 24 = n5 div 2 ^ 16 div 2 ^ 8" by (simp add: div_mult2_eq)
  then have d3: "n5 div 2 ^ 24 = n2" unfolding d2 unfolding n3_def by simp
  have "n5 div 2 ^ 32 = n5 div 2 ^ 24 div 2 ^ 8" by (simp add: div_mult2_eq)
  then have d4: "n5 div 2 ^ 32 = n1" unfolding d3 unfolding n2_def by simp
  have c1: "char_of n1 = b0" by (simp add: n1_def)
  have c2: "char_of n2 = b1" unfolding n2_def by (rule char_of_low)
  have c3: "char_of n3 = b2" unfolding n3_def by (rule char_of_low)
  have c4: "char_of n4 = b3" unfolding n4_def by (rule char_of_low)
  have c5: "char_of n5 = b4" unfolding n5_def by (rule char_of_low)
  show ?thesis
    by (simp only: q to_bytes5_def n d1 d2 d3 d4 c1 c2 c3 c4 c5)
qed

lemma b32alphabet_length: "length b32alphabet = 32"
  by (simp add: b32alphabet_def)

lemma b32alphabet_distinct: "distinct b32alphabet"
  by (simp add: b32alphabet_def)

lemma b32rev_nth: "d < 32 \<Longrightarrow> b32rev (b32alphabet ! d) = Some d"
proof -
  assume d: "d < 32"
  have "map_of (zip b32alphabet [0..<32]) (b32alphabet ! d) = Some ([0..<32] ! d)"
    using d by (intro map_of_zip_nth) (simp_all add: b32alphabet_length b32alphabet_distinct)
  then show ?thesis using d by (simp add: b32rev_def)
qed

lemma b32alphabet_range:
  "c \<in> set b32alphabet \<Longrightarrow>
     (65 \<le> (of_char c :: nat) \<and> (of_char c :: nat) \<le> 90)
     \<or> (50 \<le> (of_char c :: nat) \<and> (of_char c :: nat) \<le> 55)"
  by (auto simp: b32alphabet_def)

lemma b32alphabet_nth: "d < 32 \<Longrightarrow> b32alphabet ! d \<in> set b32alphabet"
  by (simp add: b32alphabet_length)

lemma b32_char_props:
  assumes "c \<in> set b32alphabet"
  shows "c \<noteq> CHR ''=''" and "lower_chr c \<noteq> CHR ''.''" and "upper_chr (lower_chr c) = c"
    and "lower_chr c \<noteq> CHR ''=''"
proof -
  note r = b32alphabet_range [OF assms]
  show "c \<noteq> CHR ''=''" using r by auto
  have l: "(of_char (lower_chr c) :: nat) = (if 65 \<le> (of_char c :: nat) \<and> (of_char c :: nat) \<le> 90
             then of_char c + 32 else of_char c)"
    by (simp add: lower_chr_def)
  show "lower_chr c \<noteq> CHR ''.''" using r l by auto
  show "lower_chr c \<noteq> CHR ''=''" using r l by auto
  show "upper_chr (lower_chr c) = c"
  proof (cases "65 \<le> (of_char c :: nat) \<and> (of_char c :: nat) \<le> 90")
    case True
    then have "(of_char (lower_chr c) :: nat) = of_char c + 32" using l by simp
    then show ?thesis using True by (simp add: upper_chr_def)
  next
    case False
    then have "lower_chr c = c" by (auto simp: lower_chr_def)
    moreover have "\<not> (97 \<le> (of_char c :: nat) \<and> (of_char c :: nat) \<le> 122)"
      using r False by auto
    ultimately show ?thesis by (auto simp: upper_chr_def)
  qed
qed

lemma encode_quantum_qdigits:
  "encode_quantum q = map (\<lambda>d. b32alphabet ! d) (qdigits (from_bytes q))"
  by (simp add: encode_quantum_def qdigits_def b32tab2_def Let_def)

lemma qdigits_length: "length (qdigits c) = 8"
  by (simp add: qdigits_def)

lemma qdigits_lt: "c < 2 ^ 40 \<Longrightarrow> \<forall>d \<in> set (qdigits c). d < 32"
proof -
  assume c: "c < 2 ^ 40"
  have "c div 2 ^ 30 < 1024" using c by (simp add: less_mult_imp_div_less)
  then have "c div 2 ^ 30 div 32 < 32" by (simp add: less_mult_imp_div_less)
  moreover have "x mod 1024 div 32 < 32" for x :: nat
    by (simp add: less_mult_imp_div_less)
  ultimately show ?thesis by (simp add: qdigits_def)
qed

lemma decode_quantum_map:
  "\<forall>d \<in> set ds. d < 32 \<Longrightarrow>
   decode_quantum (map (\<lambda>d. b32alphabet ! d) ds) acc = Some (foldl (\<lambda>a d. a * 32 + d) acc ds)"
  by (induction ds arbitrary: acc) (simp_all add: b32rev_nth)

lemma pair32: "(a * 32 + b div 32) * 32 + b mod 32 = a * 1024 + (b::nat)"
proof -
  have "(a * 32 + b div 32) * 32 + b mod 32 = a * 1024 + (b div 32 * 32 + b mod 32)"
    by (simp add: add_mult_distrib)
  then show ?thesis by simp
qed

lemma mod1024_div32: "(y::nat) mod 1024 div 32 = y div 32 mod 32"
proof -
  have "y mod (32 * 32) = 32 * (y div 32 mod 32) + y mod 32"
    by (rule mod_mult2_eq)
  then have "y mod 1024 div 32 = (32 * (y div 32 mod 32) + y mod 32) div 32" by simp
  then show ?thesis by simp
qed

lemma mod1024_mod32: "(y::nat) mod 1024 mod 32 = y mod 32"
  by (rule mod_mod_cancel) simp

lemma step32: "(y::nat) div 1024 * 32 + y mod 1024 div 32 = y div 32"
proof -
  have "y div 1024 = y div 32 div 32" by (simp add: div_mult2_eq)
  then show ?thesis by (simp add: mod1024_div32)
qed

lemma val32_take:
  shows "val32 (take 8 (qdigits c)) = c"
    and "val32 (take 7 (qdigits c)) = c div 2 ^ 5"
    and "val32 (take 5 (qdigits c)) = c div 2 ^ 15"
    and "val32 (take 4 (qdigits c)) = c div 2 ^ 20"
    and "val32 (take 2 (qdigits c)) = c div 2 ^ 30"
proof -
  define y1 where "y1 = c div 1024"
  define y2 where "y2 = y1 div 1024"
  define y3 where "y3 = y2 div 1024"
  have e10: "c div 2 ^ 10 = y1" by (simp add: y1_def)
  have e20: "c div 2 ^ 20 = y2" by (simp add: y2_def y1_def div_mult2_eq)
  have e30: "c div 2 ^ 30 = y3" by (simp add: y3_def y2_def y1_def div_mult2_eq)
  have e15: "c div 2 ^ 15 = y1 div 32" by (simp add: y1_def div_mult2_eq)
  have q: "qdigits c = [y3 div 32, y3 mod 32, y2 mod 1024 div 32, y2 mod 1024 mod 32,
             y1 mod 1024 div 32, y1 mod 1024 mod 32, c mod 1024 div 32, c mod 1024 mod 32]"
    by (simp only: qdigits_def e10 e20 e30)
  have v2: "val32 (take 2 (qdigits c)) = y3"
    by (simp add: q val32_def)
  have v4: "val32 (take 4 (qdigits c)) = y2"
  proof -
    have "val32 (take 4 (qdigits c)) = (y3 * 32 + y2 mod 1024 div 32) * 32 + y2 mod 1024 mod 32"
      by (simp add: q val32_def)
    also have "\<dots> = y3 * 1024 + y2 mod 1024" by (rule pair32)
    also have "\<dots> = y2" by (simp add: y3_def)
    finally show ?thesis .
  qed
  have v5: "val32 (take 5 (qdigits c)) = y1 div 32"
  proof -
    have "val32 (take 5 (qdigits c))
          = ((y3 * 32 + y2 mod 1024 div 32) * 32 + y2 mod 1024 mod 32) * 32 + y1 mod 1024 div 32"
      by (simp add: q val32_def)
    also have "\<dots> = (y3 * 1024 + y2 mod 1024) * 32 + y1 mod 1024 div 32"
      by (simp only: pair32)
    also have "y3 * 1024 + y2 mod 1024 = y1 div 1024" by (simp add: y3_def y2_def)
    also have "y1 div 1024 * 32 + y1 mod 1024 div 32 = y1 div 32" by (rule step32)
    finally show ?thesis .
  qed
  have v6: "val32 (take 6 (qdigits c)) = y1"
  proof -
    have "val32 (take 6 (qdigits c))
          = (((y3 * 32 + y2 mod 1024 div 32) * 32 + y2 mod 1024 mod 32) * 32 + y1 mod 1024 div 32) * 32
            + y1 mod 1024 mod 32"
      by (simp add: q val32_def)
    also have "\<dots> = ((y3 * 1024 + y2 mod 1024) * 32 + y1 mod 1024 div 32) * 32 + y1 mod 1024 mod 32"
      by (simp only: pair32)
    also have "\<dots> = (y3 * 1024 + y2 mod 1024) * 1024 + y1 mod 1024" by (rule pair32)
    also have "y3 * 1024 + y2 mod 1024 = y1 div 1024" by (simp add: y3_def y2_def)
    also have "y1 div 1024 * 1024 + y1 mod 1024 = y1" by simp
    finally show ?thesis .
  qed
  have snoc: "val32 (take (Suc k) (qdigits c)) = val32 (take k (qdigits c)) * 32 + qdigits c ! k"
    if "k < 8" for k
    using that by (simp add: val32_def take_Suc_conv_app_nth qdigits_length)
  have n6: "qdigits c ! 6 = c mod 1024 div 32" and n7: "qdigits c ! 7 = c mod 1024 mod 32"
    by (simp_all add: q)
  have v7: "val32 (take 7 (qdigits c)) = c div 32"
  proof -
    have "val32 (take 7 (qdigits c)) = val32 (take 6 (qdigits c)) * 32 + qdigits c ! 6"
      using snoc [of 6] by simp
    also have "\<dots> = c div 1024 * 32 + c mod 1024 div 32"
      by (simp only: v6 n6 y1_def)
    also have "\<dots> = c div 32" by (rule step32)
    finally show ?thesis .
  qed
  have v8: "val32 (take 8 (qdigits c)) = c"
  proof -
    have "val32 (take 8 (qdigits c)) = val32 (take 7 (qdigits c)) * 32 + qdigits c ! 7"
      using snoc [of 7] by simp
    also have "\<dots> = c div 32 * 32 + c mod 1024 mod 32"
      by (simp only: v7 n7)
    also have "\<dots> = c" by (simp add: mod1024_mod32)
    finally show ?thesis .
  qed
  show "val32 (take 8 (qdigits c)) = c" by (rule v8)
  show "val32 (take 7 (qdigits c)) = c div 2 ^ 5" using v7 by simp
  show "val32 (take 5 (qdigits c)) = c div 2 ^ 15" using v5 e15 by simp
  show "val32 (take 4 (qdigits c)) = c div 2 ^ 20" using v4 e20 by simp
  show "val32 (take 2 (qdigits c)) = c div 2 ^ 30" using v2 e30 by simp
qed

lemma from_bytes_lt: "length q = 5 \<Longrightarrow> from_bytes q < 2 ^ 40"
  using from_bytes_bound [of q] by simp

lemma encode_quantum_length: "length (encode_quantum q) = 8"
  by (simp add: encode_quantum_qdigits qdigits_length)

lemma encode_quantum_alphabet:
  assumes "length q = 5"
  shows "set (encode_quantum q) \<subseteq> set b32alphabet"
proof -
  have "\<forall>d \<in> set (qdigits (from_bytes q)). d < 32"
    using assms by (intro qdigits_lt from_bytes_lt)
  then show ?thesis
    by (auto simp: encode_quantum_qdigits b32alphabet_nth)
qed

lemma decode_quantum_take:
  assumes "length q = 5"
  shows "decode_quantum (take k (encode_quantum q)) 0 = Some (val32 (take k (qdigits (from_bytes q))))"
proof -
  have lt: "\<forall>d \<in> set (qdigits (from_bytes q)). d < 32"
    using assms by (intro qdigits_lt from_bytes_lt)
  have "\<forall>d \<in> set (take k (qdigits (from_bytes q))). d < 32"
    using lt in_set_takeD by fast
  then have "decode_quantum (map (\<lambda>d. b32alphabet ! d) (take k (qdigits (from_bytes q)))) 0
             = Some (foldl (\<lambda>a d. a * 32 + d) 0 (take k (qdigits (from_bytes q))))"
    by (rule decode_quantum_map)
  then show ?thesis by (simp add: encode_quantum_qdigits take_map val32_def)
qed

lemma decode_quantum_full:
  assumes "length q = 5"
  shows "decode_quantum (encode_quantum q) 0 = Some (from_bytes q)"
proof -
  have "take 8 (encode_quantum q) = encode_quantum q"
    by (simp add: encode_quantum_length)
  then show ?thesis
    using decode_quantum_take [OF assms, of 8] val32_take(1) [of "from_bytes q"] by simp
qed

lemma decode_loop_blocks:
  assumes "\<forall>q \<in> set blocks. length q = 5"
  shows "\<exists>acc'. decode_loop (map encode_quantum blocks @ rest) decoded acc
               = decode_loop rest (decoded @ concat blocks) acc'"
  using assms
proof (induction blocks arbitrary: decoded acc)
  case Nil
  show ?case by auto
next
  case (Cons q qs)
  have q: "length q = 5" using Cons.prems by simp
  have "decode_loop (map encode_quantum (q # qs) @ rest) decoded acc
        = decode_loop (map encode_quantum qs @ rest) (decoded @ q) (from_bytes q)"
    by (simp add: decode_quantum_full [OF q] to_bytes5_from_bytes [OF q])
  moreover obtain acc' where
    "decode_loop (map encode_quantum qs @ rest) (decoded @ q) (from_bytes q)
     = decode_loop rest ((decoded @ q) @ concat qs) acc'"
    using Cons.IH [of "decoded @ q" "from_bytes q"] Cons.prems by auto
  ultimately show ?case by auto
qed

lemma b32_text_roundtrip:
  assumes "set e \<subseteq> set b32alphabet"
  shows "str_upper (filter (\<lambda>c. c \<noteq> CHR ''.'') (str_lower e)) = e"
    and "rstrip CHR ''='' (e @ replicate p CHR ''='') = e"
proof -
  have a: "\<forall>c \<in> set e. c \<in> set b32alphabet" using assms by blast
  have "filter (\<lambda>c. c \<noteq> CHR ''.'') (map lower_chr e) = map lower_chr e"
    using a by (intro filter_True) (auto simp: b32_char_props(2))
  moreover have "map upper_chr (map lower_chr e) = e"
  proof -
    have "map (\<lambda>c. upper_chr (lower_chr c)) e = e"
      using a by (intro map_idI) (simp add: b32_char_props(3))
    then show ?thesis by (simp add: comp_def)
  qed
  ultimately show "str_upper (filter (\<lambda>c. c \<noteq> CHR ''.'') (str_lower e)) = e"
    by (simp add: str_upper_def str_lower_def)
  have "e = [] \<or> last e \<noteq> CHR ''=''"
    using a b32_char_props(1) last_in_set by blast
  then have "rstrip CHR ''='' e = e" by (rule rstrip_fixed)
  then show "rstrip CHR ''='' (e @ replicate p CHR ''='') = e"
    by (simp add: rstrip_append_replicate)
qed

lemma leftover_cases: "r < 5 \<Longrightarrow> r \<noteq> 0 \<Longrightarrow> r = 1 \<or> r = 2 \<or> r = 3 \<or> r = (4::nat)"
  by arith

lemma npad_facts:
  assumes "r < 5" and "r \<noteq> 0"
  shows "npad r \<in> {0, 1, 3, 4, 6}" and "npad r \<noteq> 0" and "npad r < 8"
    and "(43 - 5 * npad r) div 8 = r" and "5 * npad r \<le> 8 * (5 - r)"
  using leftover_cases [OF assms] by (auto simp: npad_def)

lemma val32_npad:
  assumes "r < 5" and "r \<noteq> 0"
  shows "val32 (take (8 - npad r) (qdigits c)) = c div 2 ^ (5 * npad r)"
  using leftover_cases [OF assms] val32_take(2-5) [of c] by (auto simp: npad_def)

lemma length_concat_blocks: "\<forall>x \<in> set xs. length x = k \<Longrightarrow> length (concat xs) = k * length xs"
  by (induction xs) simp_all

lemma pow2_dvd_shift: "5 * p \<le> 8 * z \<Longrightarrow> (2::nat) ^ (5 * p) dvd t * 256 ^ z"
proof -
  assume a: "5 * p \<le> 8 * z"
  have "(256::nat) ^ z = 2 ^ (8 * z)"
    using power_mult [of "2::nat" 8 z] by simp
  moreover have "(2::nat) ^ (5 * p) dvd 2 ^ (8 * z)"
    using a by (rule le_imp_power_dvd)
  ultimately show ?thesis by (simp add: dvd_mult)
qed

lemma b32encode_full:
  assumes "length s mod 5 = 0"
  shows "b32encode s = concat (map encode_quantum (range_slices 0 5 s))"
  using assms by (simp add: b32encode_def Let_def)

lemma b32encode_partial:
  assumes r: "length s mod 5 = r" and r0: "r \<noteq> 0"
    and F: "F = take (length s - r) s" and Z: "Z = drop (length s - r) s @ replicate (5 - r) (CHR 0x00)"
  shows "b32encode s = (concat (map encode_quantum (range_slices 0 5 F))
                        @ take (8 - npad r) (encode_quantum Z)) @ replicate (npad r) CHR ''=''"
proof -
  have r5: "r < 5" using r by auto
  have rl: "r \<le> length s" using r by (metis mod_less_eq_dividend)
  have lF: "length F = length s - r" using F by simp
  have dF: "5 dvd length F"
    unfolding lF using r by (metis dvd_minus_mod)
  have lZ: "length Z = 5" using Z r5 rl by simp
  have s': "s @ replicate (5 - r) (CHR 0x00) = F @ Z"
    using F Z by simp
  have "range_slices 0 5 (F @ Z) = range_slices 0 5 F @ range_slices 0 5 Z"
    using dF by (intro range_slices_append) simp
  also have "range_slices 0 5 Z = [Z]"
    using lZ by (intro range_slices_single) simp_all
  finally have rs: "range_slices 0 5 (F @ Z) = range_slices 0 5 F @ [Z]" .
  let ?B = "concat (map encode_quantum (range_slices 0 5 F))"
  have enc: "concat (map encode_quantum (range_slices 0 5 (F @ Z))) = ?B @ encode_quantum Z"
    by (simp add: rs)
  let ?E = "?B @ encode_quantum Z"
  have gen: "b32encode s =
       (if r = 1 then take (length ?E - 6) ?E @ ''======''
        else if r = 2 then take (length ?E - 4) ?E @ ''====''
        else if r = 3 then take (length ?E - 3) ?E @ ''===''
        else if r = 4 then take (length ?E - 1) ?E @ ''=''
        else ?E)"
    unfolding b32encode_def Let_def r using r0 by (simp only: if_True s' enc simp_thms)
  have tk: "take (length ?E - p) ?E = ?B @ take (8 - p) (encode_quantum Z)" if "p \<le> 8" for p
    using that by (simp add: encode_quantum_length)
  have reps: "replicate 6 CHR ''='' = ''======''" "replicate 4 CHR ''='' = ''====''"
    "replicate 3 CHR ''='' = ''===''" "replicate 1 CHR ''='' = ''=''"
    by (simp_all add: numeral_eq_Suc)
  consider "r = 1" | "r = 2" | "r = 3" | "r = 4"
    using leftover_cases [OF r5 r0] by blast
  then show ?thesis
  proof cases
    case 1
    have "b32encode s = take (length ?E - 6) ?E @ ''======''" using gen 1 by simp
    also have "\<dots> = (?B @ take 2 (encode_quantum Z)) @ ''======''"
      using tk [of 6] by simp
    finally show ?thesis using 1 by (simp add: npad_def reps)
  next
    case 2
    have "b32encode s = take (length ?E - 4) ?E @ ''====''" using gen 2 by simp
    also have "\<dots> = (?B @ take 4 (encode_quantum Z)) @ ''====''"
      using tk [of 4] by simp
    finally show ?thesis using 2 by (simp add: npad_def reps)
  next
    case 3
    have "b32encode s = take (length ?E - 3) ?E @ ''===''" using gen 3 by simp
    also have "\<dots> = (?B @ take 5 (encode_quantum Z)) @ ''===''"
      using tk [of 3] by simp
    finally show ?thesis using 3 by (simp add: npad_def reps)
  next
    case 4
    have "b32encode s = take (length ?E - 1) ?E @ ''=''" using gen 4 by simp
    also have "\<dots> = (?B @ take 7 (encode_quantum Z)) @ ''=''"
      using tk [of 1] by simp
    finally show ?thesis using 4 by (simp add: npad_def reps)
  qed
qed

lemma to_bytes5_length: "length (to_bytes5 n) = 5"
  by (simp add: to_bytes5_def)

lemma range_slices_Nil: "range_slices 0 k [] = []"
  by (simp add: range_slices_0)

lemma blocks_alphabet:
  assumes "\<forall>q \<in> set blocks. length q = 5"
  shows "set (concat (map encode_quantum blocks)) \<subseteq> set b32alphabet"
  using assms encode_quantum_alphabet by auto

lemma roundtrip_full:
  assumes r: "length s mod 5 = 0"
  shows "decode_labels (encode_chunk s) = Inr s
         \<and> (\<exists>e. set e \<subseteq> set b32alphabet \<and> encode_chunk s = str_lower e)"
proof -
  let ?blocks = "range_slices 0 5 s"
  let ?B = "map encode_quantum ?blocks"
  let ?E = "concat ?B"
  have bl: "\<forall>q \<in> set ?blocks. length q = 5"
    using r by (intro range_slices_blocks) auto
  have cs: "concat ?blocks = s" by (rule concat_range_slices) simp
  have al: "set ?E \<subseteq> set b32alphabet" using bl by (rule blocks_alphabet)
  have lE: "length ?E = 8 * length ?blocks"
    using length_concat_blocks [of ?B 8] by (simp add: encode_quantum_length)
  have strip: "rstrip CHR ''='' ?E = ?E"
    using b32_text_roundtrip(2) [OF al, of 0] by simp
  have enc: "encode_chunk s = str_lower ?E"
    by (simp only: encode_chunk_def b32encode_full [OF r] strip)
  have clean: "str_upper (filter (\<lambda>c. c \<noteq> CHR ''.'') (str_lower ?E)) = ?E"
    using al by (rule b32_text_roundtrip(1))
  have rs: "range_slices 0 8 ?E = ?B"
    using range_slices_concat [of 8 ?B "[]"] by (simp add: encode_quantum_length range_slices_Nil)
  obtain acc' where "decode_loop (?B @ []) [] 0 = decode_loop [] ([] @ concat ?blocks) acc'"
    using decode_loop_blocks [OF bl] by blast
  then have dl: "decode_loop ?B [] 0 = Some (s, acc')" by (simp add: cs)
  have dec: "b32decode ?E = Some s"
    unfolding b32decode_def Let_def strip rs dl using lE by simp
  have "decode_labels (str_lower ?E) = Inr s"
    unfolding decode_labels_def Let_def clean using lE dec by simp
  then show ?thesis using al enc by metis
qed

lemma roundtrip_partial:
  assumes r: "length s mod 5 = r" and r0: "r \<noteq> 0"
  shows "decode_labels (encode_chunk s) = Inr s
         \<and> (\<exists>e. set e \<subseteq> set b32alphabet \<and> encode_chunk s = str_lower e)"
proof -
  define F where "F = take (length s - r) s"
  define T where "T = drop (length s - r) s"
  define Z where "Z = T @ replicate (5 - r) (CHR 0x00)"
  define p where "p = npad r"
  define c where "c = from_bytes Z"
  have r5: "r < 5" using r by auto
  have rl: "r \<le> length s" using r by (metis mod_less_eq_dividend)
  have lT: "length T = r" using rl by (simp add: T_def)
  have lZ: "length Z = 5" using lT r5 by (simp add: Z_def)
  have FT: "F @ T = s" by (simp add: F_def T_def)
  have "5 dvd length s - length s mod 5" by (rule dvd_minus_mod)
  then have dF: "5 dvd length F"
    unfolding F_def using r rl by simp
  note pf = npad_facts [OF r5 r0, folded p_def]
  let ?blocks = "range_slices 0 5 F"
  let ?B = "map encode_quantum ?blocks"
  let ?tail = "take (8 - p) (encode_quantum Z)"
  let ?E = "concat ?B @ ?tail"
  have bl: "\<forall>q \<in> set ?blocks. length q = 5"
    using dF by (intro range_slices_blocks) auto
  have cs: "concat ?blocks = F" by (rule concat_range_slices) simp
  have lt: "length ?tail = 8 - p" by (simp add: encode_quantum_length)
  have tpos: "0 < length ?tail" using pf(3) lt by simp
  have al: "set ?E \<subseteq> set b32alphabet"
    using blocks_alphabet [OF bl] encode_quantum_alphabet [OF lZ] set_take_subset [of "8 - p" "encode_quantum Z"]
    by auto
  have lB: "length (concat ?B) = 8 * length ?blocks"
    using length_concat_blocks [of ?B 8] by (simp add: encode_quantum_length)
  have lE: "length ?E = 8 * length ?blocks + (8 - p)" using lB lt by simp
  have b32: "b32encode s = ?E @ replicate p CHR ''=''"
    unfolding p_def using r r0 by (rule b32encode_partial) (simp_all add: F_def Z_def T_def)
  have strip: "rstrip CHR ''='' (?E @ replicate p CHR ''='') = ?E"
    using al by (rule b32_text_roundtrip(2))
  have enc: "encode_chunk s = str_lower ?E"
    by (simp only: encode_chunk_def b32 strip)
  have clean: "str_upper (filter (\<lambda>c. c \<noteq> CHR ''.'') (str_lower ?E)) = ?E"
    using al by (rule b32_text_roundtrip(1))
  define k where "k = 8 - p"
  have kp: "k < 8" "0 < k" "8 - k = p" "k + p = 8" using pf(2,3) by (simp_all add: k_def)
  have lEk: "length ?E = 8 * length ?blocks + k" using lE by (simp add: k_def)
  have pad: "(8 - length ?E mod 8) mod 8 = p"
  proof -
    have "length ?E mod 8 = k" unfolding lEk using kp(1) by simp
    then show ?thesis using kp pf(3) by simp
  qed
  have rs: "range_slices 0 8 ?E = ?B @ [?tail]"
  proof -
    have "range_slices 0 8 (concat ?B @ ?tail) = ?B @ range_slices 0 8 ?tail"
      by (intro range_slices_concat) (simp_all add: encode_quantum_length)
    moreover have "range_slices 0 8 ?tail = [?tail]"
      using tpos lt by (intro range_slices_single) simp_all
    ultimately show ?thesis by simp
  qed
  define a where "a = c div 2 ^ (5 * p)"
  have dq: "decode_quantum ?tail 0 = Some a"
    unfolding a_def c_def p_def
    using decode_quantum_take [OF lZ, of "8 - npad r"] val32_npad [OF r5 r0, of "from_bytes Z"]
    by simp
  obtain acc' where "decode_loop (?B @ [?tail]) [] 0 = decode_loop [?tail] ([] @ concat ?blocks) acc'"
    using decode_loop_blocks [OF bl] by blast
  then have dl: "decode_loop (?B @ [?tail]) [] 0 = Some (F @ to_bytes5 a, a)"
    by (simp add: cs dq)
  have cT: "c = from_bytes T * 256 ^ (5 - r)"
    unfolding c_def Z_def by (simp add: from_bytes_append from_bytes_zeros)
  have "2 ^ (5 * p) dvd c"
    unfolding cT using pf(5) by (rule pow2_dvd_shift)
  then have shift: "a * 2 ^ (5 * p) = c"
    unfolding a_def by (rule dvd_div_mult_self)
  have last: "to_bytes5 c = Z"
    unfolding c_def using lZ by (rule to_bytes5_from_bytes)
  have tz: "take r Z = T" using lT by (simp add: Z_def)
  have "length (?E @ replicate p CHR ''='') = 8 * length ?blocks + 8"
    using lEk kp(4) by simp
  then have lenE: "length (?E @ replicate p CHR ''='') mod 8 = 0"
    by simp
  have padchars: "length (?E @ replicate p CHR ''='') - length ?E = p" by simp
  have tk: "take (length (F @ to_bytes5 a) - 5) (F @ to_bytes5 a) = F"
    by (simp add: to_bytes5_length)
  have ne: "F @ to_bytes5 a \<noteq> []"
    by (simp add: to_bytes5_def)
  have dec: "b32decode (?E @ replicate p CHR ''='') = Some s"
    unfolding b32decode_def Let_def strip rs dl padchars
    by (simp only: lenE option.case prod.case pf(1) pf(2) pf(4) shift last tz tk ne FT
        if_True if_False simp_thms)
  have "decode_labels (str_lower ?E) = Inr s"
    unfolding decode_labels_def Let_def clean pad using dec by simp
  then show ?thesis using al enc by metis
qed

lemma decode_encode_roundtrip: "decode_labels (encode_chunk s) = Inr s"
  using roundtrip_full [of s] roundtrip_partial [of s] by blast

lemma encode_chunk_text:
  shows "CHR ''='' \<notin> set (encode_chunk s)" and "str_lower (encode_chunk s) = encode_chunk s"
proof -
  obtain e where e: "set e \<subseteq> set b32alphabet" and enc: "encode_chunk s = str_lower e"
    using roundtrip_full [of s] roundtrip_partial [of s] by blast
  have "lower_chr c \<noteq> CHR ''=''" if "c \<in> set e" for c
    using that e b32_char_props(4) by blast
  then show "CHR ''='' \<notin> set (encode_chunk s)"
    unfolding enc str_lower_def set_map by (metis imageE)
  show "str_lower (encode_chunk s) = encode_chunk s"
    unfolding enc by (rule str_lower_idem)
qed

lemma decode_each_encode: "decode_each (map encode_chunk chunks) = Inr chunks"
  by (induction chunks) (simp_all add: decode_encode_roundtrip)

lemma decode_payload_encode:
  "decode_payload_chunks (map encode_chunk chunks) = Inr (rstrip filler (concat chunks))"
  by (simp add: decode_payload_chunks_def decode_each_encode strip_padding_def)

lemma concat_padded_slices:
  assumes "0 < k" and "m \<noteq> []"
  shows "\<exists>n. concat (map (pad_chunk k) (range_slices 0 k m)) = m @ replicate n filler"
  using assms(2)
proof (induction "length m" arbitrary: m rule: less_induct)
  case less
  have rs: "range_slices 0 k m = take k m # range_slices 0 k (drop k m)"
    using less.prems assms(1) range_slices_0 [of k m] by simp
  show ?case
  proof (cases "drop k m = []")
    case True
    then have "range_slices 0 k m = [m]" using rs by (simp add: range_slices_0)
    then have "concat (map (pad_chunk k) (range_slices 0 k m)) = pad_chunk k m" by simp
    also have "\<dots> = m @ replicate (if length m < k then k - length m else 0) filler"
      by (simp add: pad_chunk_def)
    finally show ?thesis by blast
  next
    case False
    then have kl: "k < length m" by simp
    then have "length (take k m) = k" by simp
    then have p: "pad_chunk k (take k m) = take k m" by (simp add: pad_chunk_def)
    have "length (drop k m) < length m" using assms(1) kl by simp
    then obtain n where "concat (map (pad_chunk k) (range_slices 0 k (drop k m)))
                         = drop k m @ replicate n filler"
      using less.hyps False by blast
    then have "concat (map (pad_chunk k) (range_slices 0 k m)) = m @ replicate n filler"
      using rs p by (simp flip: append_assoc)
    then show ?thesis by blast
  qed
qed

lemma chunk_message_concat:
  assumes "0 < chunk_size"
  shows "\<exists>chunks n. chunk_message m chunk_size = Inr chunks
                   \<and> concat chunks = m @ replicate n filler"
proof (cases "m = []")
  case True
  then have "chunk_message m chunk_size = Inr [replicate chunk_size filler]"
    using assms by (simp add: chunk_message_def range_slices_0)
  then show ?thesis using True by auto
next
  case False
  then have "range_slices 0 chunk_size m \<noteq> []"
    using assms by (subst range_slices_0) simp
  then have "chunk_message m chunk_size = Inr (map (pad_chunk chunk_size) (range_slices 0 chunk_size m))"
    using assms by (simp add: chunk_message_def)
  then show ?thesis using concat_padded_slices [OF assms False] by auto
qed

lemma pipeline_strips:
  assumes "0 < chunk_size"
  shows "\<exists>chunks. chunk_message m chunk_size = Inr chunks
               \<and> decode_payload_chunks (map encode_chunk chunks) = Inr (rstrip filler m)"
proof -
  obtain chunks n where c: "chunk_message m chunk_size = Inr chunks"
    and cc: "concat chunks = m @ replicate n filler"
    using chunk_message_concat [OF assms] by blast
  have "decode_payload_chunks (map encode_chunk chunks) = Inr (rstrip filler m)"
    by (simp add: decode_payload_encode cc rstrip_append_replicate)
  then show ?thesis using c by blast
qed

text \<open>
  Claim C1. For every byte string \<open>b\<close>, of any length, decoding the encoded chunk gives
  \<open>b\<close> back; the encoded text carries no \<^verbatim>\<open>=\<close> padding and is in lower case.
\<close>

theorem base32_roundtrip:
  "decode_labels (encode_chunk b) = Inr b
   \<and> CHR ''='' \<notin> set (encode_chunk b)
   \<and> str_lower (encode_chunk b) = encode_chunk b"
  using decode_encode_roundtrip [of b] encode_chunk_text(1) [of b] encode_chunk_text(2) [of b]
  by simp

text \<open>
  Claim C7. For every non-empty message \<open>m\<close> whose last byte is the filler \<^verbatim>\<open>_\<close> and every
  positive chunk size, chunking, encoding, decoding, concatenating and stripping yields
  \<open>m\<close> without its trailing filler bytes, which is not \<open>m\<close>.
\<close>

theorem trailing_filler_stripped:
  assumes "m \<noteq> []" and "last m = filler" and "0 < chunk_size"
  shows "\<exists>chunks. chunk_message m chunk_size = Inr chunks
               \<and> decode_payload_chunks (map encode_chunk chunks) = Inr (rstrip filler m)
               \<and> rstrip filler m \<noteq> m"
proof -
  have "rstrip filler m = [] \<or> last (rstrip filler m) \<noteq> filler" by (rule rstrip_last)
  then have "rstrip filler m \<noteq> m" using assms(1,2) by auto
  then show ?thesis using pipeline_strips [OF assms(3), of m] by blast
qed

theorem trailing_filler_stripped_witness:
  "''ab_'' \<noteq> [] \<and> last ''ab_'' = filler \<and> 0 < (2::nat)
   \<and> (\<exists>chunks. chunk_message ''ab_'' 2 = Inr chunks
               \<and> decode_payload_chunks (map encode_chunk chunks) = Inr ''ab'')"
  using trailing_filler_stripped [of "''ab_''" 2] by (simp add: filler_def rstrip_def)

lemma scenario_chunks:
  "chunk_message ''hello from nsec cache datastore'' 8
   = Inr [''hello fr'', ''om nsec '', ''cache da'', ''tastore_'']"
  by (simp add: chunk_message_def range_slices_0 pad_chunk_def filler_def)

text \<open>
  Claim C6, as stated: the message has 31 bytes, and chunk size 8 gives the four chunks
  below, not five.
\<close>

theorem scenario_five_chunks_counterexample:
  "length ''hello from nsec cache datastore'' = 31
   \<and> chunk_message ''hello from nsec cache datastore'' 8
       = Inr [''hello fr'', ''om nsec '', ''cache da'', ''tastore_'']
   \<and> length [''hello fr'', ''om nsec '', ''cache da'', ''tastore_''] \<noteq> 5"
  using scenario_chunks by simp

text \<open>
  Claim C6, amended. Chunking the message \<^verbatim>\<open>hello from nsec cache datastore\<close> with chunk
  size 8 produces exactly 4 chunks, and encoding every chunk, decoding them all in order
  and stripping the filler reproduces the message.
\<close>

theorem scenario_end_to_end:
  "\<exists>chunks. chunk_message ''hello from nsec cache datastore'' 8 = Inr chunks
          \<and> length chunks = 4
          \<and> decode_payload_chunks (map encode_chunk chunks)
              = Inr ''hello from nsec cache datastore''"
proof -
  have "decode_payload_chunks (map encode_chunk [''hello fr'', ''om nsec '', ''cache da'', ''tastore_''])
        = Inr ''hello from nsec cache datastore''"
    using decode_payload_encode [of "[''hello fr'', ''om nsec '', ''cache da'', ''tastore_'']"]
    by (simp add: filler_def rstrip_def)
  then show ?thesis using scenario_chunks by simp
qed

end
